theory Spec2Isabelle
  imports Main "HOL-Library.Sublist"
begin

section \<open>The document tree and the element watcher\<close>

text \<open>
  The plugin works on the rendered document: a tree of elements. An element is
  identified by its path from the root of the tree (the list of child indices), which
  stays valid while children are only appended, as \<open>appendChild\<close> does. The click
  listener that \<open>addTranscribeButton\<close> installs on a button closes over the audio
  element; the field \<open>onclick\<close> holds the path of that element.
\<close>

type_synonym path = "nat list"

datatype node =
  Node (tag: string) (classes: "string list") (src: string) (onclick: "path option")
    (kids: "node list")

definition set_kids :: "node \<Rightarrow> node list \<Rightarrow> node" where
  "set_kids n ks = Node (tag n) (classes n) (src n) (onclick n) ks"

fun subtree :: "node \<Rightarrow> path \<Rightarrow> node option" where
  "subtree n [] = Some n"
| "subtree n (i # p) = (if i < length (kids n) then subtree (kids n ! i) p else None)"

fun modify :: "path \<Rightarrow> (node \<Rightarrow> node) \<Rightarrow> node \<Rightarrow> node" where
  "modify [] f n = f n"
| "modify (i # p) f n =
     (if i < length (kids n) then set_kids n ((kids n)[i := modify p f (kids n ! i)]) else n)"

text \<open>\<open>el.querySelectorAll('audio')\<close>: the audio elements below \<open>el\<close> (never \<open>el\<close>
  itself), in document order, as paths from \<open>el\<close>.\<close>

fun audios :: "node \<Rightarrow> path list" and audios_list :: "nat \<Rightarrow> node list \<Rightarrow> path list" where
  "audios (Node t c s l ks) = audios_list 0 ks"
| "audios_list i [] = []"
| "audios_list i (k # ks) =
     map ((#) i) ((if tag k = ''audio'' then [[]] else []) @ audios k) @ audios_list (Suc i) ks"

text \<open>\<open>el.querySelector('.transcribe-button')\<close>: the first element below \<open>el\<close>, in
  document order, that carries the class; \<open>None\<close> is the source's \<open>null\<close>.\<close>

fun querySelector :: "node \<Rightarrow> path option"
  and querySelector_list :: "nat \<Rightarrow> node list \<Rightarrow> path option" where
  "querySelector (Node t c s l ks) = querySelector_list 0 ks"
| "querySelector_list i [] = None"
| "querySelector_list i (k # ks) =
     (if ''transcribe-button'' \<in> set (classes k) then Some [i]
      else (case querySelector k of
              Some p \<Rightarrow> Some (i # p)
            | None \<Rightarrow> querySelector_list (Suc i) ks))"

text \<open>\<open>audio.parentElement\<close>: the root of the tree has none.\<close>

definition parentElement :: "path \<Rightarrow> node \<Rightarrow> (path \<times> node) option" where
  "parentElement a doc =
     (if a = [] then None
      else (case subtree doc (butlast a) of
              None \<Rightarrow> None
            | Some par \<Rightarrow> Some (butlast a, par)))"

text \<open>The button of \<open>addTranscribeButton\<close> (lines 78 to 87): class, text, title, style
  and the click listener bound to the audio element.\<close>

definition transcribe_button :: "path \<Rightarrow> node" where
  "transcribe_button audio = Node ''button'' [''transcribe-button''] [] (Some audio) []"

definition appendChild :: "node \<Rightarrow> node \<Rightarrow> node" where
  "appendChild child par = set_kids par (kids par @ [child])"

text \<open>
  \<open>addTranscribeButton\<close> (lines 74 to 92). With no parent element,
  \<open>audio.parentElement?.querySelector(..)\<close> is \<open>undefined\<close>, the branch is taken and
  \<open>audio.parentElement?.appendChild(button)\<close> does nothing: the document is unchanged.
\<close>

definition addTranscribeButton :: "path \<Rightarrow> node \<Rightarrow> node" where
  "addTranscribeButton audio doc =
     (case parentElement audio doc of
        None \<Rightarrow> doc
      | Some (pp, par) \<Rightarrow>
          (if querySelector par = None
           then modify pp (appendChild (transcribe_button audio)) doc
           else doc))"

text \<open>
  \<open>addTranscribeButtonToAudio\<close> (lines 63 to 71) on the element at path \<open>el\<close>:
  \<open>querySelectorAll\<close> returns a static list, and \<open>forEach\<close> calls
  \<open>addTranscribeButton\<close> on each of its elements in turn, each call seeing the
  document as the calls before left it.
\<close>

definition addTranscribeButtonToAudio :: "path \<Rightarrow> node \<Rightarrow> node" where
  "addTranscribeButtonToAudio el doc =
     (case subtree doc el of
        None \<Rightarrow> doc
      | Some e \<Rightarrow> fold addTranscribeButton (map ((@) el) (audios e)) doc)"

text \<open>The callback of the mutation observer (lines 42 to 53): a batch of mutation
  records, each with its type and its target.\<close>

record mutation =
  mtype :: string
  target :: path

definition on_mutations :: "mutation list \<Rightarrow> node \<Rightarrow> node" where
  "on_mutations ms doc =
     fold (\<lambda>m d. if mtype m = ''childList'' then addTranscribeButtonToAudio (target m) d else d)
       ms doc"

text \<open>The controls attached to an audio element: the elements of the tree (the root
  included) that carry the class and whose listener is bound to that element.\<close>

fun controls :: "node \<Rightarrow> path list" and controls_list :: "node list \<Rightarrow> path list" where
  "controls (Node t c s l ks) =
     (case l of
        Some a \<Rightarrow> (if ''transcribe-button'' \<in> set c then [a] else [])
      | None \<Rightarrow> []) @ controls_list ks"
| "controls_list [] = []"
| "controls_list (k # ks) = controls k @ controls_list ks"

definition controls_of :: "path \<Rightarrow> node \<Rightarrow> nat" where
  "controls_of audio doc = count_list (controls doc) audio"

section \<open>Strings and runtime values\<close>

text \<open>
  A string is a list of code units, here the 8-bit \<open>char\<close>; whitespace outside that
  range is not modelled. \<open>trim\<close> is \<open>String.prototype.trim\<close>: it removes leading and
  trailing white space and line terminators.
\<close>

definition is_space :: "char \<Rightarrow> bool" where
  "is_space c = (c \<in> set [CHR 0x09, CHR 0x0A, CHR 0x0B, CHR 0x0C, CHR 0x0D, CHR 0x20, CHR 0xA0])"

definition trim :: "string \<Rightarrow> string" where
  "trim s = rev (dropWhile is_space (rev (dropWhile is_space s)))"

text \<open>\<open>audioUrl.split('/').pop()\<close>: what follows the last slash (the whole string when
  there is none). The array \<open>split\<close> returns is never empty.\<close>

definition last_segment :: "string \<Rightarrow> string" where
  "last_segment url = rev (takeWhile (\<lambda>c. c \<noteq> CHR ''/'') (rev url))"

fun join :: "string \<Rightarrow> string list \<Rightarrow> string" where
  "join sep [] = []"
| "join sep [x] = x"
| "join sep (x # y # ys) = x @ sep @ join sep (y # ys)"

text \<open>
  The values a parsed JSON body holds, and \<open>undefined\<close>. A number is kept as the
  string that JavaScript prints for it, so \<open>0\<close> and \<open>-0\<close> are both \<open>JNum ''0''\<close>.
\<close>

datatype jsval =
  JUndefined | JNull | JBool bool | JNum string | JStr string
| JArr "jsval list" | JObj "(string \<times> jsval) list"

datatype exn =
  FetchFailed \<comment> \<open>\<open>fetch\<close> rejects: the server cannot be reached\<close>
| BodyFailed \<comment> \<open>\<open>response.json()\<close> or \<open>response.blob()\<close> rejects\<close>
| TypeError
| Error string

text \<open>A value inside a template literal, \<open>`${x}`\<close>.\<close>

fun toString :: "jsval \<Rightarrow> string" where
  "toString JUndefined = ''undefined''"
| "toString JNull = ''null''"
| "toString (JBool b) = (if b then ''true'' else ''false'')"
| "toString (JNum s) = s"
| "toString (JStr s) = s"
| "toString (JArr xs) =
     join '','' (map (\<lambda>x. if x = JUndefined \<or> x = JNull then [] else toString x) xs)"
| "toString (JObj kvs) = ''[object Object]''"

text \<open>The left operand of \<open>||\<close> is kept when it is truthy. A parsed JSON number is
  never \<open>NaN\<close>.\<close>

fun truthy :: "jsval \<Rightarrow> bool" where
  "truthy JUndefined = False"
| "truthy JNull = False"
| "truthy (JBool b) = b"
| "truthy (JNum s) = (s \<noteq> ''0'')"
| "truthy (JStr s) = (s \<noteq> [])"
| "truthy (JArr xs) = True"
| "truthy (JObj kvs) = True"

text \<open>
  Reading one of the properties \<open>text\<close>, \<open>message\<close>, \<open>content\<close>: a \<open>TypeError\<close> on
  \<open>null\<close> and \<open>undefined\<close>, the member of an object (the last one when a key is
  repeated, as \<open>JSON.parse\<close> keeps it), and \<open>undefined\<close> on every other value, which
  has no property of these names.
\<close>

fun get_prop :: "jsval \<Rightarrow> string \<Rightarrow> exn + jsval" where
  "get_prop JUndefined k = Inl TypeError"
| "get_prop JNull k = Inl TypeError"
| "get_prop (JObj kvs) k = Inr (case map_of (rev kvs) k of Some v \<Rightarrow> v | None \<Rightarrow> JUndefined)"
| "get_prop v k = Inr JUndefined"

text \<open>\<open>transcription.trim()\<close>: only a string has the method.\<close>

fun js_trim :: "jsval \<Rightarrow> exn + string" where
  "js_trim (JStr s) = Inr (trim s)"
| "js_trim v = Inl TypeError"

section \<open>The editor of the host\<close>

text \<open>
  The editor is the host's, not this repository's. Of its interface the plugin uses
  \<open>getCursor\<close>, \<open>replaceRange\<close> with one position (an insertion) and \<open>setCursor\<close>.
  The document is its list of lines, never empty; a position is a line and a column.
  A position outside the document is clipped as the host's editor does: a line past the
  last one becomes the end of the document, a column past the end of its line the end of
  that line.
\<close>

record editor =
  doc_lines :: "string list"
  cursor :: "nat \<times> nat"

definition the_lines :: "editor \<Rightarrow> string list" where
  "the_lines ed = (if doc_lines ed = [] then [[]] else doc_lines ed)"

definition clipPos :: "string list \<Rightarrow> nat \<times> nat \<Rightarrow> nat \<times> nat" where
  "clipPos ls pos =
     (if fst pos \<ge> length ls then (length ls - 1, length (last ls))
      else (fst pos, min (snd pos) (length (ls ! fst pos))))"

text \<open>
  The lines of a text that is inserted: the editor breaks it at every line feed and at
  every carriage return; a carriage return and the line feed right after it are one
  break. The result is never empty.
\<close>

fun split_lines :: "string \<Rightarrow> string list" where
  "split_lines [] = [[]]"
| "split_lines [c] = (if c = CHR 0x0A \<or> c = CHR 0x0D then [[], []] else [[c]])"
| "split_lines (c # d # cs) =
     (if c = CHR 0x0D \<and> d = CHR 0x0A then [] # split_lines cs
      else if c = CHR 0x0A \<or> c = CHR 0x0D then [] # split_lines (d # cs)
      else (case split_lines (d # cs) of
              [] \<Rightarrow> [[c]]
            | l # ls \<Rightarrow> (c # l) # ls))"

definition getCursor :: "editor \<Rightarrow> nat \<times> nat" where
  "getCursor ed = cursor ed"

definition replaceRange :: "string \<Rightarrow> nat \<times> nat \<Rightarrow> editor \<Rightarrow> editor" where
  "replaceRange text pos ed =
     (let ls = the_lines ed;
          at = clipPos ls pos;
          before = take (snd at) (ls ! fst at);
          after = drop (snd at) (ls ! fst at);
          ins = split_lines text;
          new = (if length ins = 1 then [before @ hd ins @ after]
                 else (before @ hd ins) # butlast (tl ins) @ [last ins @ after])
      in ed\<lparr>doc_lines := take (fst at) ls @ new @ drop (Suc (fst at)) ls\<rparr>)"

definition setCursor :: "nat \<times> nat \<Rightarrow> editor \<Rightarrow> editor" where
  "setCursor pos ed = ed\<lparr>cursor := clipPos (the_lines ed) pos\<rparr>"

section \<open>The world of the plugin\<close>

record settings =
  settingWhisperIP :: string
  settingOllamaIP :: string
  settingOllamaToggle :: bool
  settingOllamaPrompt :: string

definition DEFAULT_SETTINGS :: settings where
  \<open>DEFAULT_SETTINGS =
     \<lparr>settingWhisperIP = ''192.168.1.10:9000'',
      settingOllamaIP = ''192.168.1.10:11434'',
      settingOllamaToggle = False,
      settingOllamaPrompt = ''You are an avid Obsidian user. You can use Heading (#, ##, ###, optinonal), Ordered List, Unordered List, and other markdown syntax as part of your response as best as you see fit to present as much infomration at you can in a concise manner. Below is a transcription of an audio note. Remove any pauses and phrases like "hmmm" or "uhhh" or similar. Some of the information may make sense as bulleted or numbered lists. Do not restate any part of this prompt or explain how you arrived to your response.: ''\<rparr>\<close>

text \<open>What \<open>fetch\<close> settles to: a rejection, or a response with its \<open>ok\<close> flag and
  what reading its body gives (\<open>None\<close> when \<open>json()\<close> or \<open>blob()\<close> rejects).\<close>

datatype 'a response = Rejected | Response bool "'a option"

type_synonym blob = string

datatype request =
  Get string
| PostForm string string string string blob
    \<comment> \<open>address, field name, file name, media type, content\<close>
| PostJson string jsval

text \<open>The progress indicator of a job: the \<open>div\<close> of lines 100 to 105. Its class is
  not \<open>transcribe-button\<close> and it is no audio element, so it is kept beside the tree of
  the document rather than in it; \<open>attached\<close> says whether it is in the document.\<close>

record indicator =
  textContent :: string
  attached :: bool

text \<open>The two interval callbacks of \<open>transcribeAudio\<close>: the one of line 110 and the
  one of line 159. Each has a \<open>dotCount\<close> of its own.\<close>

datatype ticker = Transcribing | Processing

record interval =
  owner :: nat
  ticker :: ticker
  dotCount :: nat
  due :: nat
  active :: bool

record timeout =
  fires :: nat
  removes :: nat
  pending :: bool

text \<open>
  A call of the asynchronous \<open>transcribeAudio\<close> is a job. Between two \<open>await\<close>s it
  runs without interruption; at an \<open>await\<close> it is suspended, and \<open>stage\<close> says at
  which one. The other fields are the local variables that live across an \<open>await\<close>.
  \<open>dotInterval\<close> is the constant of line 110. The constant of the same name of line
  159 is local to the block of the \<open>if\<close> and shadows it there only; nothing reads it,
  so the job keeps no field for it.
\<close>

datatype stage = AwaitProbe | AwaitAudio | AwaitWhisper | AwaitOllama | Returned

record job =
  audioElement :: path
  audioUrl :: string
  audioFileName :: string
  progressIndicator :: nat
  dotInterval :: nat
  transcription :: jsval
  finalText :: jsval
  stage :: stage

record world =
  clock :: nat \<comment> \<open>milliseconds\<close>
  settings :: settings
  page :: node
  markdownActive :: bool \<comment> \<open>\<open>getActiveViewOfType(MarkdownView)\<close> is not null\<close>
  editor :: editor
  indicators :: "indicator list"
  intervals :: "interval list"
  timeouts :: "timeout list"
  jobs :: "job list"
  requests :: "request list"
  notifications :: "(string \<times> string) list"
  notices :: "string list"
  console :: "(string \<times> exn) list"

subsection \<open>Timers, logs and the progress indicator\<close>

definition set_text :: "nat \<Rightarrow> string \<Rightarrow> world \<Rightarrow> world" where
  "set_text k s w =
     (if k < length (indicators w)
      then w\<lparr>indicators := (indicators w)[k := (indicators w ! k)\<lparr>textContent := s\<rparr>]\<rparr>
      else w)"

text \<open>\<open>progressIndicator.remove()\<close>; on an indicator that is no longer in the document
  it changes nothing.\<close>

definition remove_indicator :: "nat \<Rightarrow> world \<Rightarrow> world" where
  "remove_indicator k w =
     (if k < length (indicators w)
      then w\<lparr>indicators := (indicators w)[k := (indicators w ! k)\<lparr>attached := False\<rparr>]\<rparr>
      else w)"

text \<open>\<open>setInterval(callback, 500)\<close> for the callback \<open>t\<close> of job \<open>jid\<close>; the result is
  the identifier of the timer.\<close>

definition setInterval :: "nat \<Rightarrow> ticker \<Rightarrow> world \<Rightarrow> nat \<times> world" where
  "setInterval jid t w =
     (length (intervals w),
      w\<lparr>intervals := intervals w @
         [\<lparr>owner = jid, ticker = t, dotCount = 0, due = clock w + 500, active = True\<rparr>]\<rparr>)"

definition clearInterval :: "nat \<Rightarrow> world \<Rightarrow> world" where
  "clearInterval i w =
     (if i < length (intervals w)
      then w\<lparr>intervals := (intervals w)[i := (intervals w ! i)\<lparr>active := False\<rparr>]\<rparr>
      else w)"

text \<open>\<open>setTimeout(() => progressIndicator.remove(), 3000)\<close>.\<close>

definition setTimeout_remove :: "nat \<Rightarrow> world \<Rightarrow> world" where
  "setTimeout_remove k w =
     w\<lparr>timeouts := timeouts w @ [\<lparr>fires = clock w + 3000, removes = k, pending = True\<rparr>]\<rparr>"

definition fetch :: "request \<Rightarrow> world \<Rightarrow> world" where
  "fetch req w = w\<lparr>requests := requests w @ [req]\<rparr>"

definition notify :: "string \<Rightarrow> string \<Rightarrow> world \<Rightarrow> world" where
  "notify title body w = w\<lparr>notifications := notifications w @ [(title, body)]\<rparr>"

definition notice :: "string \<Rightarrow> world \<Rightarrow> world" where
  "notice msg w = w\<lparr>notices := notices w @ [msg]\<rparr>"

definition console_error :: "string \<Rightarrow> exn \<Rightarrow> world \<Rightarrow> world" where
  "console_error msg e w = w\<lparr>console := console w @ [(msg, e)]\<rparr>"

text \<open>The text an interval callback writes, with \<open>n\<close> dots (lines 112 and 116, 161 and
  165). The callback of line 159 reads the variable \<open>finalText\<close> each time it runs.\<close>

fun label :: "job \<Rightarrow> ticker \<Rightarrow> nat \<Rightarrow> string" where
  "label j Transcribing n = ''Transcribing: '' @ audioFileName j @ replicate n CHR ''.''"
| "label j Processing n =
     ''Processing with Ollama'' @ replicate n CHR ''.'' @
     '' \<newline> \<newline> Whisper Transcription: \<newline> '' @ toString (finalText j)"

text \<open>One run of the callback of interval \<open>i\<close> (lines 110 to 118, 159 to 167).\<close>

definition tick :: "nat \<Rightarrow> world \<Rightarrow> world" where
  "tick i w =
     (let iv = intervals w ! i in
      if owner iv < length (jobs w) then
        (let j = jobs w ! owner iv in
         if dotCount iv < 5 then
           (set_text (progressIndicator j) (label j (ticker iv) (dotCount iv + 1)) w)
             \<lparr>intervals := (intervals w)[i := iv\<lparr>dotCount := dotCount iv + 1\<rparr>]\<rparr>
         else
           (set_text (progressIndicator j) (label j (ticker iv) 0) w)
             \<lparr>intervals := (intervals w)[i := iv\<lparr>dotCount := 0\<rparr>]\<rparr>)
      else w)"

text \<open>
  One millisecond passes: every active interval that is due runs and is due again 500
  milliseconds later, and every pending timeout that is due runs once. A callback writes
  the text of an indicator and a counter, a timeout the \<open>attached\<close> flag, so the order
  among the timers due at the same millisecond does not matter.
\<close>

definition fire_interval :: "nat \<Rightarrow> world \<Rightarrow> world" where
  "fire_interval i w =
     (let iv = intervals w ! i in
      if active iv \<and> due iv = clock w
      then tick i (w\<lparr>intervals := (intervals w)[i := iv\<lparr>due := due iv + 500\<rparr>]\<rparr>)
      else w)"

definition fire_timeout :: "nat \<Rightarrow> world \<Rightarrow> world" where
  "fire_timeout k w =
     (let t = timeouts w ! k in
      if pending t \<and> fires t = clock w
      then remove_indicator (removes t) (w\<lparr>timeouts := (timeouts w)[k := t\<lparr>pending := False\<rparr>]\<rparr>)
      else w)"

definition elapse :: "world \<Rightarrow> world" where
  "elapse w =
     (let w1 = w\<lparr>clock := clock w + 1\<rparr>;
          w2 = fold fire_interval [0..<length (intervals w1)] w1
      in fold fire_timeout [0..<length (timeouts w2)] w2)"

fun advance :: "nat \<Rightarrow> world \<Rightarrow> world" where
  "advance 0 w = w"
| "advance (Suc d) w = advance d (elapse w)"

section \<open>The backend clients\<close>

text \<open>\<open>await fetch(..)\<close>: a rejection is thrown at the \<open>await\<close>.\<close>

definition await_fetch :: "'a response \<Rightarrow> exn + bool \<times> 'a option" where
  "await_fetch r = (case r of Rejected \<Rightarrow> Inl FetchFailed | Response ok b \<Rightarrow> Inr (ok, b))"

text \<open>
  \<open>checkWhisperServerAvailability\<close> (lines 283 to 293), in its two halves: up to the
  \<open>await\<close>, and from the response on. The result is what the function returns or
  throws, and the world with what it logged.
\<close>

definition checkWhisperServerAvailability_request :: "world \<Rightarrow> world" where
  "checkWhisperServerAvailability_request w =
     fetch (Get (''http://'' @ settingWhisperIP (settings w))) w"

definition checkWhisperServerAvailability_result ::
  "'a response \<Rightarrow> world \<Rightarrow> (exn + bool) \<times> world" where
  "checkWhisperServerAvailability_result r w =
     (case await_fetch r of
        Inr resp \<Rightarrow> (Inr (fst resp), w)
      | Inl error \<Rightarrow> (Inr False, console_error ''Whisper server is not available:'' error w))"

definition checkWhisperServerAvailability :: "'a response \<Rightarrow> world \<Rightarrow> (exn + bool) \<times> world" where
  "checkWhisperServerAvailability r w =
     checkWhisperServerAvailability_result r (checkWhisperServerAvailability_request w)"

text \<open>\<open>fetchTranscription\<close> (lines 188 to 202).\<close>

definition fetchTranscription_request :: "string \<Rightarrow> blob \<Rightarrow> world \<Rightarrow> world" where
  "fetchTranscription_request name file w =
     fetch (PostForm (''http://'' @ settingWhisperIP (settings w) @ ''/asr?output=json'')
              ''audio_file'' name ''audio/mp3'' file) w"

definition fetchTranscription_result :: "jsval response \<Rightarrow> exn + jsval" where
  "fetchTranscription_result r =
     (case await_fetch r of
        Inl e \<Rightarrow> Inl e
      | Inr (ok, body) \<Rightarrow>
          if \<not> ok then Inl (Error ''Failed to fetch transcription'')
          else (case body of
                  None \<Rightarrow> Inl BodyFailed
                | Some result \<Rightarrow> get_prop result ''text''))"

text \<open>\<open>processWithOllama\<close> (lines 205 to 237).\<close>

definition processWithOllama_request :: "jsval \<Rightarrow> world \<Rightarrow> world" where
  "processWithOllama_request text w =
     fetch (PostJson (''http://'' @ settingOllamaIP (settings w) @ ''/api/chat'')
              (JObj [(''model'', JStr ''llama3.2''),
                     (''messages'', JArr [JObj [(''role'', JStr ''user''),
                        (''content'', JStr (settingOllamaPrompt (settings w) @
                           ''\<newline>\<newline>'' @ toString text))]]),
                     (''stream'', JBool False)])) w"

definition processWithOllama_try :: "jsval response \<Rightarrow> exn + jsval" where
  "processWithOllama_try r =
     (case await_fetch r of
        Inl e \<Rightarrow> Inl e
      | Inr (ok, body) \<Rightarrow>
          if \<not> ok then Inl (Error ''Failed to process text with Ollama'')
          else (case body of
                  None \<Rightarrow> Inl BodyFailed
                | Some resData \<Rightarrow>
                    (case get_prop resData ''message'' of
                       Inl e \<Rightarrow> Inl e
                     | Inr message \<Rightarrow>
                         (case (if message = JUndefined \<or> message = JNull then Inr JUndefined
                                else get_prop message ''content'') of
                            Inl e \<Rightarrow> Inl e
                          | Inr content \<Rightarrow>
                              Inr (if truthy content then content
                                   else JStr ''Ollama returned no text.'')))))"

definition processWithOllama_result :: "jsval response \<Rightarrow> world \<Rightarrow> jsval \<times> world" where
  "processWithOllama_result r w =
     (case processWithOllama_try r of
        Inr text \<Rightarrow> (text, w)
      | Inl error \<Rightarrow>
          (JStr ''Failed to process text with Ollama.'',
           console_error ''Error processing with Ollama:'' error w))"

section \<open>The result inserter\<close>

text \<open>\<open>audioElement.parentElement?.querySelector('.transcribe-button')\<close>, as a path
  from the root of the document.\<close>

definition find_button :: "path \<Rightarrow> node \<Rightarrow> path option" where
  "find_button audio doc =
     (case parentElement audio doc of
        None \<Rightarrow> None
      | Some (pp, par) \<Rightarrow> map_option ((@) pp) (querySelector par))"

text \<open>
  \<open>displayTranscriptionResult\<close> (lines 240 to 280). The result is the world after the
  call, or the exception it throws: \<open>trim\<close> on a value that is no string. Nothing has
  been changed yet when that happens.
\<close>

definition displayTranscriptionResult :: "path \<Rightarrow> jsval \<Rightarrow> world \<Rightarrow> exn + world" where
  "displayTranscriptionResult audio text w =
     (case find_button audio (page w) of
        None \<Rightarrow> Inr (notice ''Transcribe button not found!'' w)
      | Some transcribeButton \<Rightarrow>
          if \<not> markdownActive w then Inr (notice ''No active editor found!'' w)
          else (case parentElement transcribeButton (page w) of
                  None \<Rightarrow> Inr (notice ''Could not find the position for the transcription.'' w)
                | Some buttonPosition \<Rightarrow>
                    (case js_trim text of
                       Inl e \<Rightarrow> Inl e
                     | Inr trimmed \<Rightarrow>
                         (let cur = getCursor (editor w);
                              lineAtButton = fst cur + 1;
                              ed1 = replaceRange trimmed (lineAtButton, 0) (editor w);
                              ed2 = setCursor (lineAtButton, length trimmed) ed1
                          in Inr (w\<lparr>editor := ed2\<rparr>)))))"

section \<open>The transcription orchestrator\<close>

definition set_job :: "nat \<Rightarrow> (job \<Rightarrow> job) \<Rightarrow> world \<Rightarrow> world" where
  "set_job jid f w =
     (if jid < length (jobs w) then w\<lparr>jobs := (jobs w)[jid := f (jobs w ! jid)]\<rparr> else w)"

text \<open>
  \<open>transcribeAudio\<close> up to its first \<open>await\<close> (lines 96 to 122): the progress
  indicator is created and appended to the parent of the audio element when there is
  one, the interval is started, and \<open>checkWhisperServerAvailability\<close> sends its request.
  The new job is the last of \<open>jobs\<close>.
\<close>

definition transcribeAudio_start :: "path \<Rightarrow> world \<Rightarrow> world" where
  "transcribeAudio_start audio w =
     (let url = (case subtree (page w) audio of None \<Rightarrow> [] | Some n \<Rightarrow> src n);
          name = (if last_segment url = [] then ''Unknown File'' else last_segment url);
          jid = length (jobs w);
          ind = length (indicators w);
          w1 = w\<lparr>indicators := indicators w @
                 [\<lparr>textContent = ''Transcribing: '' @ name,
                   attached = (parentElement audio (page w) \<noteq> None)\<rparr>]\<rparr>;
          (timer, w2) = setInterval jid Transcribing w1;
          w3 = w2\<lparr>jobs := jobs w2 @
                 [\<lparr>audioElement = audio, audioUrl = url, audioFileName = name,
                   progressIndicator = ind, dotInterval = timer,
                   transcription = JUndefined, finalText = JUndefined,
                   stage = AwaitProbe\<rparr>]\<rparr>
      in checkWhisperServerAvailability_request w3)"

text \<open>The click listener of a button (lines 85 to 87).\<close>

definition click :: "path \<Rightarrow> world \<Rightarrow> world" where
  "click button w =
     (case subtree (page w) button of
        None \<Rightarrow> w
      | Some b \<Rightarrow> (case onclick b of None \<Rightarrow> w | Some audio \<Rightarrow> transcribeAudio_start audio w))"

text \<open>How a stretch of the body of the \<open>try\<close> ends: at the next \<open>await\<close>, with a
  \<open>return\<close> or the end of the block, or with an exception.\<close>

datatype outcome = Awaits stage world | Returns world | Throws exn world

text \<open>Lines 172 to 176. \<open>dotInterval\<close> is the timer of line 110 here: the block that
  declares the other one has ended.\<close>

definition complete :: "nat \<Rightarrow> world \<Rightarrow> outcome" where
  "complete jid w =
     (let j = jobs w ! jid;
          w1 = clearInterval (dotInterval j) w
      in case displayTranscriptionResult (audioElement j) (finalText j) w1 of
           Inl e \<Rightarrow> Throws e w1
         | Inr w2 \<Rightarrow> Returns (set_text (progressIndicator j) ''Transcription Complete'' w2))"

text \<open>Lines 122 to 140, from the response to the probe on.\<close>

definition after_probe :: "nat \<Rightarrow> unit response \<Rightarrow> world \<Rightarrow> outcome" where
  "after_probe jid r w =
     (let j = jobs w ! jid in
      case checkWhisperServerAvailability_result r w of
        (Inl e, w1) \<Rightarrow> Throws e w1
      | (Inr serverAvailable, w1) \<Rightarrow>
          if \<not> serverAvailable then
            Returns
              (setTimeout_remove (progressIndicator j)
                (clearInterval (dotInterval j)
                  (set_text (progressIndicator j) ''Failed: Server Unavailable''
                    (notify ''Whisper Server Unavailable''
                       ''The local Whisper server is not available. Please ensure it is running on port 9000.''
                       w1))))
          else
            Awaits AwaitAudio
              (fetch (Get (audioUrl j))
                (notify ''Transcription Request'' (''Transcribing: '' @ audioFileName j) w1)))"

text \<open>Lines 140 to 148, from the response to the request for the audio file on. The
  status of that response is not looked at.\<close>

definition after_audio :: "nat \<Rightarrow> blob response \<Rightarrow> world \<Rightarrow> outcome" where
  "after_audio jid r w =
     (let j = jobs w ! jid in
      case await_fetch r of
        Inl e \<Rightarrow> Throws e w
      | Inr (ok, body) \<Rightarrow>
          (case body of
             None \<Rightarrow> Throws BodyFailed w
           | Some audioFile \<Rightarrow>
               Awaits AwaitWhisper (fetchTranscription_request (audioFileName j) audioFile w)))"

text \<open>Lines 148 to 169, from the response of the recognition endpoint on.\<close>

definition after_whisper :: "nat \<Rightarrow> jsval response \<Rightarrow> world \<Rightarrow> outcome" where
  "after_whisper jid r w =
     (case fetchTranscription_result r of
        Inl e \<Rightarrow> Throws e w
      | Inr t \<Rightarrow>
          (let w1 = set_job jid (\<lambda>j. j\<lparr>transcription := t, finalText := t\<rparr>) w;
               w2 = clearInterval (dotInterval (jobs w1 ! jid)) w1
           in if settingOllamaToggle (settings w2) then
                (let (timer, w3) = setInterval jid Processing w2
                 in Awaits AwaitOllama (processWithOllama_request t w3))
              else complete jid w2))"

text \<open>Lines 169 to 176, from the response of the text-generation backend on.\<close>

definition after_ollama :: "nat \<Rightarrow> jsval response \<Rightarrow> world \<Rightarrow> outcome" where
  "after_ollama jid r w =
     (let (text, w1) = processWithOllama_result r w;
          w2 = set_job jid (\<lambda>j. j\<lparr>finalText := text\<rparr>) w1
      in complete jid w2)"

text \<open>The \<open>catch\<close> block (lines 177 to 179) and the \<open>finally\<close> block (lines 180 to
  184), which also runs after the \<open>return\<close> of line 131.\<close>

definition catch_block :: "nat \<Rightarrow> exn \<Rightarrow> world \<Rightarrow> world" where
  "catch_block jid error w =
     set_text (progressIndicator (jobs w ! jid)) ''Failed: Transcription Error''
       (console_error ''Transcription failed:'' error w)"

definition finally_block :: "nat \<Rightarrow> world \<Rightarrow> world" where
  "finally_block jid w =
     setTimeout_remove (progressIndicator (jobs w ! jid))
       (clearInterval (dotInterval (jobs w ! jid)) w)"

definition settle :: "nat \<Rightarrow> outcome \<Rightarrow> world" where
  "settle jid out =
     (case out of
        Awaits st w \<Rightarrow> set_job jid (\<lambda>j. j\<lparr>stage := st\<rparr>) w
      | Returns w \<Rightarrow> set_job jid (\<lambda>j. j\<lparr>stage := Returned\<rparr>) (finally_block jid w)
      | Throws e w \<Rightarrow>
          set_job jid (\<lambda>j. j\<lparr>stage := Returned\<rparr>) (finally_block jid (catch_block jid e w)))"

text \<open>A promise the job awaits settles, and the job runs on to its next \<open>await\<close> or to
  its end. A job that does not wait for this promise is left alone.\<close>

datatype event =
  ProbeSettled "unit response"
| AudioSettled "blob response"
| WhisperSettled "jsval response"
| OllamaSettled "jsval response"

definition resume :: "nat \<Rightarrow> event \<Rightarrow> world \<Rightarrow> world" where
  "resume jid ev w =
     (if jid < length (jobs w) then
        (case (stage (jobs w ! jid), ev) of
           (AwaitProbe, ProbeSettled r) \<Rightarrow> settle jid (after_probe jid r w)
         | (AwaitAudio, AudioSettled r) \<Rightarrow> settle jid (after_audio jid r w)
         | (AwaitWhisper, WhisperSettled r) \<Rightarrow> settle jid (after_whisper jid r w)
         | (AwaitOllama, OllamaSettled r) \<Rightarrow> settle jid (after_ollama jid r w)
         | _ \<Rightarrow> w)
      else w)"

text \<open>
  One whole call of \<open>transcribeAudio\<close>, given what each of its requests settles to and
  after how many milliseconds: the world at the moment the call returns. An event for a
  job that has returned is not delivered.
\<close>

record run =
  probe :: "unit response"
  probe_ms :: nat
  audio :: "blob response"
  audio_ms :: nat
  whisper :: "jsval response"
  whisper_ms :: nat
  ollama :: "jsval response"
  ollama_ms :: nat

definition deliver :: "nat \<Rightarrow> nat \<Rightarrow> event \<Rightarrow> world \<Rightarrow> world" where
  "deliver jid ms ev w =
     (if jid < length (jobs w) \<and> stage (jobs w ! jid) = Returned then w
      else resume jid ev (advance ms w))"

definition transcribeAudio :: "path \<Rightarrow> run \<Rightarrow> world \<Rightarrow> world" where
  "transcribeAudio a r w =
     (let jid = length (jobs w);
          w1 = deliver jid (probe_ms r) (ProbeSettled (probe r)) (transcribeAudio_start a w);
          w2 = deliver jid (audio_ms r) (AudioSettled (audio r)) w1;
          w3 = deliver jid (whisper_ms r) (WhisperSettled (whisper r)) w2
      in deliver jid (ollama_ms r) (OllamaSettled (ollama r)) w3)"

text \<open>The jobs of an audio element that have not returned.\<close>

definition active_jobs :: "path \<Rightarrow> world \<Rightarrow> job list" where
  "active_jobs a w = filter (\<lambda>j. audioElement j = a \<and> stage j \<noteq> Returned) (jobs w)"

section \<open>Example documents, worlds and runs\<close>

definition two_audios :: node where
  "two_audios =
     Node ''p'' [] [] None
       [Node ''audio'' [] ''app://local/a.mp3'' None [],
        Node ''audio'' [] ''app://local/b.mp3'' None []]"

definition demo_page0 :: node where
  "demo_page0 =
     Node ''div'' [] [] None
       [Node ''span'' [''internal-embed''] [] None
          [Node ''audio'' [] ''app://local/notes/memo.mp3'' None []]]"

definition demo_page :: node where
  "demo_page =
     Node ''div'' [] [] None
       [Node ''span'' [''internal-embed''] [] None
          [Node ''audio'' [] ''app://local/notes/memo.mp3'' None [],
           Node ''button'' [''transcribe-button''] [] (Some [0, 0]) []]]"

definition demo_world :: world where
  "demo_world =
     \<lparr>clock = 0, settings = DEFAULT_SETTINGS, page = demo_page, markdownActive = True,
      editor = \<lparr>doc_lines = [''first'', ''second'', ''third''], cursor = (0, 2)\<rparr>,
      indicators = [], intervals = [], timeouts = [], jobs = [], requests = [],
      notifications = [], notices = [], console = []\<rparr>"

definition demo_run :: run where
  "demo_run =
     \<lparr>probe = Response True None, probe_ms = 100,
      audio = Response True (Some ''bytes''), audio_ms = 700,
      whisper = Response True (Some (JObj [(''text'', JStr '' hello world '')])), whisper_ms = 2600,
      ollama = Rejected, ollama_ms = 1200\<rparr>"

definition with_ollama :: "world \<Rightarrow> world" where
  "with_ollama w = w\<lparr>settings := (settings w)\<lparr>settingOllamaToggle := True\<rparr>\<rparr>"

section \<open>Auxiliary notions for the proofs\<close>

inductive grows :: "node \<Rightarrow> node \<Rightarrow> bool" where
  grows_Node: "list_all2 grows ks ks1 \<Longrightarrow> (\<forall>b\<in>set bs. tag b \<noteq> ''audio'' \<and> audios b = []) \<Longrightarrow>
     grows (Node t c s l ks) (Node t c s l (ks1 @ bs))"

definition has_marker :: "node \<Rightarrow> bool" where
  "has_marker n = (querySelector n \<noteq> None)"

definition bound :: "path \<Rightarrow> node \<Rightarrow> bool" where
  "bound a doc = (\<exists>pp par. parentElement a doc = Some (pp, par) \<and> has_marker par)"

definition settled :: "path \<Rightarrow> node \<Rightarrow> bool" where
  "settled el doc = (\<exists>e. subtree doc el = Some e \<and> (\<forall>p\<in>set (audios e). bound (el @ p) doc))"

text \<open>What the passing of time leaves alone.\<close>

definition static :: "world \<Rightarrow> settings \<times> node \<times> bool \<times> editor \<times> job list \<times> request list \<times> (string \<times> string) list \<times> string list \<times> (string \<times> exn) list" where
  "static w = (settings w, page w, markdownActive w, editor w, jobs w, requests w, notifications w, notices w, console w)"

definition shape :: "world \<Rightarrow> nat \<times> (nat \<times> ticker \<times> bool) list \<times> nat" where
  "shape w = (length (indicators w), map (\<lambda>iv. (owner iv, ticker iv, active iv)) (intervals w), length (timeouts w))"

definition waiting :: "world \<Rightarrow> nat \<Rightarrow> stage \<Rightarrow> bool" where
  "waiting w jid st =
     (jid < length (jobs w) \<and> stage (jobs w ! jid) = st \<and>
      progressIndicator (jobs w ! jid) < length (indicators w) \<and>
      dotInterval (jobs w ! jid) < length (intervals w))"

text \<open>What displayTranscriptionResult does to the editor and which notice it issues.\<close>

definition insertion :: "path \<Rightarrow> jsval \<Rightarrow> world \<Rightarrow> exn + editor \<times> string list" where
  "insertion a t w =
     (if find_button a (page w) = None then Inr (editor w, [''Transcribe button not found!''])
      else if \<not> markdownActive w then Inr (editor w, [''No active editor found!''])
      else (case js_trim t of
              Inl e \<Rightarrow> Inl e
            | Inr s \<Rightarrow>
                Inr (setCursor (fst (cursor (editor w)) + 1, length s)
                       (replaceRange s (fst (cursor (editor w)) + 1, 0) (editor w)), [])))"

text \<open>The world after the catch and finally blocks, and after a completed job.\<close>

definition failed :: "nat \<Rightarrow> exn \<Rightarrow> world \<Rightarrow> world" where
  "failed jid e w =
     w\<lparr>jobs := (jobs w)[jid := (jobs w ! jid)\<lparr>stage := Returned\<rparr>],
       indicators := (indicators w)[progressIndicator (jobs w ! jid) :=
         (indicators w ! progressIndicator (jobs w ! jid))\<lparr>textContent := ''Failed: Transcription Error''\<rparr>],
       intervals := (intervals w)[dotInterval (jobs w ! jid) :=
         (intervals w ! dotInterval (jobs w ! jid))\<lparr>active := False\<rparr>],
       timeouts := timeouts w @
         [\<lparr>fires = clock w + 3000, removes = progressIndicator (jobs w ! jid), pending = True\<rparr>],
       console := console w @ [(''Transcription failed:'', e)]\<rparr>"

definition finished :: "nat \<Rightarrow> world \<Rightarrow> world" where
  "finished jid w =
     (case insertion (audioElement (jobs w ! jid)) (finalText (jobs w ! jid)) w of
        Inl e \<Rightarrow> failed jid e w
      | Inr (ed, ns) \<Rightarrow>
          w\<lparr>jobs := (jobs w)[jid := (jobs w ! jid)\<lparr>stage := Returned\<rparr>],
            indicators := (indicators w)[progressIndicator (jobs w ! jid) :=
              (indicators w ! progressIndicator (jobs w ! jid))\<lparr>textContent := ''Transcription Complete''\<rparr>],
            intervals := (intervals w)[dotInterval (jobs w ! jid) :=
              (intervals w ! dotInterval (jobs w ! jid))\<lparr>active := False\<rparr>],
            timeouts := timeouts w @
              [\<lparr>fires = clock w + 3000, removes = progressIndicator (jobs w ! jid), pending = True\<rparr>],
            editor := ed,
            notices := notices w @ ns\<rparr>)"

text \<open>The worlds a run goes through.\<close>

definition at_probe :: "path \<Rightarrow> run \<Rightarrow> world \<Rightarrow> world" where
  "at_probe a r w = advance (probe_ms r) (transcribeAudio_start a w)"

definition at_audio :: "path \<Rightarrow> run \<Rightarrow> world \<Rightarrow> world" where
  "at_audio a r w = advance (audio_ms r) (resume (length (jobs w)) (ProbeSettled (probe r)) (at_probe a r w))"

definition at_whisper :: "path \<Rightarrow> run \<Rightarrow> world \<Rightarrow> world" where
  "at_whisper a r w = advance (whisper_ms r) (resume (length (jobs w)) (AudioSettled (audio r)) (at_audio a r w))"

definition at_ollama :: "path \<Rightarrow> run \<Rightarrow> world \<Rightarrow> world" where
  "at_ollama a r w = advance (ollama_ms r) (resume (length (jobs w)) (WhisperSettled (whisper r)) (at_whisper a r w))"

text \<open>What a job leaves alone until it completes, and the fields of the job that never change.\<close>

definition same_job :: "path \<Rightarrow> world \<Rightarrow> world \<Rightarrow> bool" where
  "same_job a w w' =
     (page w' = page w \<and> markdownActive w' = markdownActive w \<and> editor w' = editor w \<and>
      notices w' = notices w \<and> settings w' = settings w \<and>
      length (jobs w') = Suc (length (jobs w)) \<and>
      length (indicators w') = Suc (length (indicators w)) \<and>
      audioElement (jobs w' ! length (jobs w)) = a \<and>
      progressIndicator (jobs w' ! length (jobs w)) = length (indicators w) \<and>
      dotInterval (jobs w' ! length (jobs w)) = length (intervals w))"


text \<open>The event that lets a job run to its end, and the final text it then has.\<close>

definition completes :: "world \<Rightarrow> nat \<Rightarrow> event \<Rightarrow> jsval \<Rightarrow> bool" where
  "completes w jid ev t =
     ((\<exists>r. waiting w jid AwaitWhisper \<and> ev = WhisperSettled r \<and>
           \<not> settingOllamaToggle (settings w) \<and> fetchTranscription_result r = Inr t) \<or>
      (\<exists>r. waiting w jid AwaitOllama \<and> ev = OllamaSettled r \<and>
           fst (processWithOllama_result r w) = t))"

definition demo_started :: world where
  "demo_started = click [0, 1] demo_world"

definition demo_probed :: world where
  "demo_probed = resume 0 (ProbeSettled (probe demo_run)) demo_started"

definition demo_uploading :: world where
  "demo_uploading = resume 0 (AudioSettled (audio demo_run)) demo_probed"


definition demo_job :: "stage \<Rightarrow> job" where
  "demo_job st =
     \<lparr>audioElement = [0, 0], audioUrl = ''app://local/notes/memo.mp3'',
      audioFileName = ''memo.mp3'', progressIndicator = 0, dotInterval = 0,
      transcription = JUndefined, finalText = JUndefined, stage = st\<rparr>"

text \<open>The view of the note is closed while the job waits.\<close>

definition demo_closed :: world where
  "demo_closed = demo_uploading\<lparr>markdownActive := False\<rparr>"

text \<open>Interval \<open>i\<close> is active and, when it runs, writes the text of indicator \<open>x\<close>.\<close>

definition writes_to :: "world \<Rightarrow> nat \<Rightarrow> nat \<Rightarrow> bool" where
  "writes_to w i x =
     (i < length (intervals w) \<and> active (intervals w ! i) \<and>
      owner (intervals w ! i) < length (jobs w) \<and>
      progressIndicator (jobs w ! owner (intervals w ! i)) = x)"

definition sole_writer :: "world \<Rightarrow> nat \<Rightarrow> nat \<Rightarrow> bool" where
  "sole_writer w i x =
     (writes_to w i x \<and> x < length (indicators w) \<and>
      (\<forall>k < length (intervals w). k \<noteq> i \<longrightarrow> \<not> writes_to w k x))"

text \<open>The counter after one more run of the callback.\<close>

definition next_count :: "nat \<Rightarrow> nat" where
  "next_count c = (if c < 5 then c + 1 else 0)"

definition fired :: "interval \<Rightarrow> interval" where
  "fired iv = iv\<lparr>due := due iv + 500, dotCount := next_count (dotCount iv)\<rparr>"

text \<open>A pending timeout that removes indicator \<open>x\<close> is due at a time after \<open>lo\<close> and not after \<open>hi\<close>.\<close>

definition removal_due :: "world \<Rightarrow> nat \<Rightarrow> nat \<Rightarrow> nat \<Rightarrow> bool" where
  "removal_due w x lo hi =
     (\<exists>k < length (timeouts w). pending (timeouts w ! k) \<and> removes (timeouts w ! k) = x \<and>
        lo < fires (timeouts w ! k) \<and> fires (timeouts w ! k) \<le> hi)"

text \<open>
  Every job has its progress indicator, every interval its job and every timeout its
  indicator: so it is in a world that the plugin has built.
\<close>

definition well_formed :: "world \<Rightarrow> bool" where
  "well_formed w =
     ((\<forall>j\<in>set (jobs w). progressIndicator j < length (indicators w)) \<and>
      (\<forall>iv\<in>set (intervals w). owner iv < length (jobs w)) \<and>
      (\<forall>t\<in>set (timeouts w). removes t < length (indicators w)))"

text \<open>A world in which the job started in \<open>w\<close> is the job after the old ones and has the
  indicator after the old ones.\<close>

definition holds_job :: "world \<Rightarrow> world \<Rightarrow> bool" where
  "holds_job w X =
     (length (jobs X) = Suc (length (jobs w)) \<and>
      progressIndicator (jobs X ! length (jobs w)) = length (indicators w) \<and>
      length (indicators X) = Suc (length (indicators w)))"

text \<open>A run in which every backend answers, with post-processing enabled.\<close>

definition demo_run_ok :: run where
  "demo_run_ok =
     demo_run\<lparr>ollama := Response True
       (Some (JObj [(''message'', JObj [(''role'', JStr ''assistant''),
                                        (''content'', JStr ''Hello, world.'')])]))\<rparr>"

text \<open>A run in which the transcription backend cannot be reached, and one in which the
  recognition endpoint answers with an error status.\<close>

definition demo_run_down :: run where
  "demo_run_down = demo_run\<lparr>probe := Rejected\<rparr>"


text \<open>Interval \<open>i\<close> is due within the next 500 milliseconds and its counter is in range.\<close>

definition armed :: "world \<Rightarrow> nat \<Rightarrow> bool" where
  "armed w i =
     (clock w < due (intervals w ! i) \<and> due (intervals w ! i) \<le> clock w + 500 \<and>
      dotCount (intervals w ! i) \<le> 5)"



text \<open>An audio element in an element of its own, followed by an audio element beside
  that element.\<close>

definition nested_audios :: node where
  "nested_audios =
     Node ''div'' [] [] None
       [Node ''span'' [] [] None [Node ''audio'' [] ''app://local/a.mp3'' None []],
        Node ''audio'' [] ''app://local/b.mp3'' None []]"

section \<open>The element watcher: lemmas\<close>

lemma grows_refl: "grows n n"
proof (induction n)
  case (Node t c s l ks)
  then have "list_all2 grows ks ks" by (simp add: list_all2_same)
  from grows_Node[OF this, of "[]"] show ?case by simp
qed

lemma grows_fields: "grows n n' \<Longrightarrow> tag n' = tag n \<and> classes n' = classes n \<and> src n' = src n \<and> onclick n' = onclick n"
  by (erule grows.cases) simp

lemma querySelector_list_None:
  "(querySelector_list i ks = None) = (\<forall>k\<in>set ks. ''transcribe-button'' \<notin> set (classes k) \<and> querySelector k = None)"
  by (induction ks arbitrary: i) (auto split: option.splits)

lemma querySelector_None:
  "(querySelector n = None) = (\<forall>k\<in>set (kids n). ''transcribe-button'' \<notin> set (classes k) \<and> querySelector k = None)"
  by (cases n) (simp add: querySelector_list_None)

lemma audios_list_append:
  "audios_list i (xs @ ys) = audios_list i xs @ audios_list (i + length xs) ys"
  by (induction xs arbitrary: i) auto

lemma audios_button [simp]: "audios (transcribe_button a) = []"
  by (simp add: transcribe_button_def)

lemma audios_list_buttons:
  "\<forall>b\<in>set bs. tag b \<noteq> ''audio'' \<and> audios b = [] \<Longrightarrow> audios_list i bs = []"
  by (induction bs arbitrary: i) auto

lemma audios_list_cong:
  "list_all2 (\<lambda>k k'. tag k' = tag k \<and> audios k' = audios k) ks ks' \<Longrightarrow> audios_list i ks' = audios_list i ks"
  by (induction ks ks' arbitrary: i rule: list_all2_induct) auto

lemma grows_audios: "grows n n' \<Longrightarrow> audios n' = audios n"
proof (induction rule: grows.induct)
  case (grows_Node ks ks1 bs t c s l)
  have "list_all2 (\<lambda>k k'. tag k' = tag k \<and> audios k' = audios k) ks ks1"
    using grows_Node.IH by (rule list_all2_mono) (auto dest: grows_fields)
  then show ?case
    using grows_Node.hyps by (simp add: audios_list_append audios_list_buttons audios_list_cong)
qed

lemma has_marker_iff:
  "has_marker n = (\<exists>k\<in>set (kids n). ''transcribe-button'' \<in> set (classes k) \<or> has_marker k)"
  unfolding has_marker_def by (subst querySelector_None) auto

lemma grows_trans: "grows a b \<Longrightarrow> grows b c \<Longrightarrow> grows a c"
proof (induction arbitrary: c rule: grows.induct)
  case (grows_Node ks ks1 bs t cl s l)
  from grows_Node.prems obtain ks2 bs2 where c: "c = Node t cl s l (ks2 @ bs2)"
    and l2: "list_all2 grows (ks1 @ bs) ks2" and b2: "\<forall>b\<in>set bs2. tag b \<noteq> ''audio'' \<and> audios b = []"
    by (auto elim: grows.cases)
  from l2 obtain ka kb where ks2: "ks2 = ka @ kb" and la: "list_all2 grows ks1 ka" and lb: "list_all2 grows bs kb"
    by (auto simp: list_all2_append1)
  have "list_all2 grows ks ka"
    using grows_Node.IH la
    by (auto simp: list_all2_conv_all_nth)
  moreover have "\<forall>b\<in>set (kb @ bs2). tag b \<noteq> ''audio'' \<and> audios b = []"
  proof -
    have "\<forall>b\<in>set kb. tag b \<noteq> ''audio'' \<and> audios b = []"
    proof
      fix b assume "b \<in> set kb"
      then obtain i where i: "i < length kb" "kb ! i = b" by (auto simp: in_set_conv_nth)
      with lb have g: "grows (bs ! i) b" and ib: "i < length bs" by (auto simp: list_all2_conv_all_nth)
      from ib grows_Node.hyps have "tag (bs ! i) \<noteq> ''audio'' \<and> audios (bs ! i) = []" by simp
      with g show "tag b \<noteq> ''audio'' \<and> audios b = []"
        using grows_fields[OF g] grows_audios[OF g] by simp
    qed
    with b2 show ?thesis by auto
  qed
  ultimately have "grows (Node t cl s l ks) (Node t cl s l (ka @ (kb @ bs2)))"
    by (rule grows.grows_Node)
  with c ks2 show ?case by simp
qed

lemma grows_marker: "grows n n' \<Longrightarrow> has_marker n \<Longrightarrow> has_marker n'"
proof (induction rule: grows.induct)
  case (grows_Node ks ks1 bs t c s l)
  from grows_Node.prems obtain k where k: "k \<in> set ks"
    and m: "''transcribe-button'' \<in> set (classes k) \<or> has_marker k"
    by (subst (asm) has_marker_iff) auto
  from k obtain i where i: "i < length ks" "ks ! i = k" by (auto simp: in_set_conv_nth)
  with grows_Node.IH have g: "grows k (ks1 ! i)" and h: "has_marker k \<longrightarrow> has_marker (ks1 ! i)"
    and il: "i < length ks1"
    by (auto simp: list_all2_conv_all_nth)
  from g m h have "''transcribe-button'' \<in> set (classes (ks1 ! i)) \<or> has_marker (ks1 ! i)"
    by (auto dest: grows_fields)
  moreover from il have "ks1 ! i \<in> set (ks1 @ bs)" by simp
  ultimately show ?case by (subst has_marker_iff) (simp, blast)
qed

lemma grows_subtree:
  "grows n n' \<Longrightarrow> subtree n q = Some m \<Longrightarrow> \<exists>m'. subtree n' q = Some m' \<and> grows m m'"
proof (induction q arbitrary: n n' m)
  case Nil
  then show ?case by simp
next
  case (Cons i q)
  from Cons.prems(1) obtain t c s l ks ks1 bs where n: "n = Node t c s l ks" and n': "n' = Node t c s l (ks1 @ bs)"
    and la: "list_all2 grows ks ks1" by (auto elim: grows.cases)
  from Cons.prems(2) n have i: "i < length ks" and st: "subtree (ks ! i) q = Some m"
    by (auto split: if_splits)
  from la i have g: "grows (ks ! i) (ks1 ! i)" and i1: "i < length ks1" by (auto simp: list_all2_conv_all_nth)
  from Cons.IH[OF g st] obtain m' where "subtree (ks1 ! i) q = Some m'" "grows m m'" by blast
  with n' i1 show ?case by (simp add: nth_append)
qed

lemma subtree_modify:
  "subtree doc p = Some par \<Longrightarrow> subtree (modify p f doc) p = Some (f par)"
  by (induction p arbitrary: doc) (auto simp: set_kids_def split: if_splits)

lemma grows_modify:
  "subtree doc p = Some par \<Longrightarrow> grows par (f par) \<Longrightarrow> grows doc (modify p f doc)"
proof (induction p arbitrary: doc)
  case Nil
  then show ?case by simp
next
  case (Cons i p)
  obtain t c s l ks where doc: "doc = Node t c s l ks" by (cases doc)
  from Cons.prems(1) doc have i: "i < length ks" and st: "subtree (ks ! i) p = Some par"
    by (auto split: if_splits)
  from Cons.IH[OF st Cons.prems(2)] have g: "grows (ks ! i) (modify p f (ks ! i))" .
  have "list_all2 grows ks (ks[i := modify p f (ks ! i)])"
    using g i by (auto simp: list_all2_conv_all_nth nth_list_update grows_refl)
  from grows_Node[OF this, of "[]" t c s l] show ?case using doc i by (simp add: set_kids_def)
qed

lemma grows_appendChild: "grows par (appendChild (transcribe_button a) par)"
proof (cases par)
  case (Node t c s l ks)
  have "list_all2 grows ks ks" by (simp add: list_all2_same grows_refl)
  from grows_Node[OF this, of "[transcribe_button a]" t c s l] show ?thesis
    using Node by (simp add: appendChild_def set_kids_def transcribe_button_def)
qed

lemma grows_addTranscribeButton: "grows doc (addTranscribeButton a doc)"
  by (auto simp: addTranscribeButton_def parentElement_def grows_refl grows_modify grows_appendChild
      split: option.splits)

lemma marker_appendChild: "has_marker (appendChild (transcribe_button a) par)"
  by (subst has_marker_iff) (simp add: appendChild_def set_kids_def transcribe_button_def)

lemma bound_addTranscribeButton:
  assumes "parentElement a doc \<noteq> None"
  shows "bound a (addTranscribeButton a doc)"
proof -
  from assms obtain par where a: "a \<noteq> []" and st: "subtree doc (butlast a) = Some par"
    by (auto simp: parentElement_def split: if_splits option.splits)
  show ?thesis
  proof (cases "querySelector par = None")
    case True
    then have "addTranscribeButton a doc = modify (butlast a) (appendChild (transcribe_button a)) doc"
      using a st by (simp add: addTranscribeButton_def parentElement_def)
    then show ?thesis
      using a subtree_modify[OF st] by (simp add: bound_def parentElement_def marker_appendChild)
  next
    case False
    then have "addTranscribeButton a doc = doc"
      using a st by (auto simp: addTranscribeButton_def parentElement_def)
    then show ?thesis
      using a st False by (simp add: bound_def parentElement_def has_marker_def)
  qed
qed

lemma bound_grows:
  assumes "bound a doc" and g: "grows doc doc'"
  shows "bound a doc'"
proof -
  from assms obtain par where a: "a \<noteq> []" and st: "subtree doc (butlast a) = Some par"
    and m: "has_marker par"
    by (auto simp: bound_def parentElement_def split: if_splits option.splits)
  from grows_subtree[OF g st] obtain par' where "subtree doc' (butlast a) = Some par'" "grows par par'"
    by blast
  with a m show ?thesis by (auto simp: bound_def parentElement_def dest: grows_marker)
qed

lemma bound_noop: "bound a doc \<Longrightarrow> addTranscribeButton a doc = doc"
  by (auto simp: bound_def addTranscribeButton_def has_marker_def)

lemma parent_grows: "parentElement a doc \<noteq> None \<Longrightarrow> grows doc doc' \<Longrightarrow> parentElement a doc' \<noteq> None"
  unfolding parentElement_def
  by (auto split: if_splits option.splits dest: grows_subtree)

lemma grows_fold: "grows doc (fold addTranscribeButton as doc)"
proof (induction as arbitrary: doc)
  case Nil show ?case by (simp add: grows_refl)
next
  case (Cons a as)
  show ?case using grows_trans[OF grows_addTranscribeButton Cons.IH] by simp
qed

lemma bound_fold:
  "\<forall>a\<in>set as. parentElement a doc \<noteq> None \<Longrightarrow> \<forall>a\<in>set as. bound a (fold addTranscribeButton as doc)"
proof (induction as arbitrary: doc)
  case Nil show ?case by simp
next
  case (Cons a as)
  let ?d = "addTranscribeButton a doc"
  have g: "grows doc ?d" by (rule grows_addTranscribeButton)
  have "bound a ?d" using Cons.prems by (simp add: bound_addTranscribeButton)
  then have "bound a (fold addTranscribeButton as ?d)" using grows_fold by (rule bound_grows)
  moreover have "\<forall>a\<in>set as. parentElement a ?d \<noteq> None"
  proof
    fix b assume "b \<in> set as"
    with Cons.prems have "parentElement b doc \<noteq> None" by simp
    then show "parentElement b ?d \<noteq> None" using g by (rule parent_grows)
  qed
  then have "\<forall>a\<in>set as. bound a (fold addTranscribeButton as ?d)" by (rule Cons.IH)
  ultimately show ?case by simp
qed

lemma fold_noop: "\<forall>a\<in>set as. bound a doc \<Longrightarrow> fold addTranscribeButton as doc = doc"
  by (induction as) (auto simp: bound_noop)

lemma audios_valid:
  "p \<in> set (audios n) \<Longrightarrow> p \<noteq> [] \<and> (\<exists>m. subtree n p = Some m \<and> tag m = ''audio'')"
  "p \<in> set (audios_list i ks) \<Longrightarrow> (\<exists>j q m. p = (i + j) # q \<and> j < length ks \<and>
      subtree (ks ! j) q = Some m \<and> tag m = ''audio'')"
proof (induction n and i ks arbitrary: p and p rule: audios_audios_list.induct)
  case (1 t c s l ks)
  from 1 show ?case by fastforce
next
  case (2 i)
  then show ?case by simp
next
  case (3 i k ks)
  from "3.prems" consider (a) "tag k = ''audio''" "p = [i]" | (b) q where "p = i # q" "q \<in> set (audios k)"
    | (c) "p \<in> set (audios_list (Suc i) ks)"
    by (auto split: if_splits)
  then show ?case
  proof cases
    case a
    then have "p = (i + 0) # [] \<and> 0 < length (k # ks) \<and> subtree ((k # ks) ! 0) [] = Some k \<and> tag k = ''audio''"
      by simp
    then show ?thesis by blast
  next
    case b
    from "3.IH"(1)[OF b(2)] obtain m where "subtree k q = Some m" "tag m = ''audio''" by blast
    with b have "p = (i + 0) # q \<and> 0 < length (k # ks) \<and> subtree ((k # ks) ! 0) q = Some m \<and> tag m = ''audio''"
      by simp
    then show ?thesis by blast
  next
    case c
    from "3.IH"(2)[OF c] obtain j q m where "p = (Suc i + j) # q" "j < length ks"
      "subtree (ks ! j) q = Some m" "tag m = ''audio''" by blast
    then have "p = (i + Suc j) # q \<and> Suc j < length (k # ks) \<and> subtree ((k # ks) ! Suc j) q = Some m \<and> tag m = ''audio''"
      by simp
    then show ?thesis by blast
  qed
qed

lemma subtree_append: "subtree doc el = Some e \<Longrightarrow> subtree doc (el @ p) = subtree e p"
  by (induction el arbitrary: doc) (auto split: if_splits)

lemma subtree_butlast: "subtree n p = Some m \<Longrightarrow> subtree n (butlast p) \<noteq> None"
  by (induction p arbitrary: n) (auto split: if_splits)

lemma audio_parent:
  assumes "subtree doc el = Some e" "p \<in> set (audios e)"
  shows "parentElement (el @ p) doc \<noteq> None"
proof -
  from audios_valid(1)[OF assms(2)] obtain m where p: "p \<noteq> []" and m: "subtree e p = Some m" by blast
  from p have "butlast (el @ p) = el @ butlast p" by (simp add: butlast_append)
  moreover have "subtree doc (el @ butlast p) \<noteq> None"
    using subtree_append[OF assms(1)] subtree_butlast[OF m] by simp
  ultimately show ?thesis using p by (auto simp: parentElement_def)
qed

lemma scan_bound:
  assumes "subtree doc el = Some e" "p \<in> set (audios e)"
  shows "bound (el @ p) (addTranscribeButtonToAudio el doc)"
proof -
  have "\<forall>a\<in>set (map ((@) el) (audios e)). parentElement a doc \<noteq> None"
    using audio_parent[OF assms(1)] by auto
  from bound_fold[OF this] show ?thesis using assms by (simp add: addTranscribeButtonToAudio_def)
qed

lemma grows_scan: "grows doc (addTranscribeButtonToAudio el doc)"
  by (simp add: addTranscribeButtonToAudio_def grows_fold grows_refl split: option.splits)

lemma settled_noop: "settled el doc \<Longrightarrow> addTranscribeButtonToAudio el doc = doc"
  by (auto simp: settled_def addTranscribeButtonToAudio_def intro!: fold_noop)

lemma settled_grows:
  assumes "settled el doc" "grows doc doc'"
  shows "settled el doc'"
proof -
  from assms(1) obtain e where e: "subtree doc el = Some e" and b: "\<forall>p\<in>set (audios e). bound (el @ p) doc"
    by (auto simp: settled_def)
  from grows_subtree[OF assms(2) e] obtain e' where e': "subtree doc' el = Some e'" and g: "grows e e'" by blast
  from grows_audios[OF g] b have "\<forall>p\<in>set (audios e'). bound (el @ p) doc'"
    by (auto intro: bound_grows[OF _ assms(2)])
  with e' show ?thesis by (auto simp: settled_def)
qed

lemma settled_scan:
  assumes "subtree doc el = Some e"
  shows "settled el (addTranscribeButtonToAudio el doc)"
proof -
  from grows_subtree[OF grows_scan assms] obtain e' where
    e': "subtree (addTranscribeButtonToAudio el doc) el = Some e'" and g: "grows e e'" by blast
  from grows_audios[OF g] scan_bound[OF assms] e' show ?thesis
    by (auto simp: settled_def)
qed

lemma scan_idem:
  "addTranscribeButtonToAudio el (addTranscribeButtonToAudio el doc) = addTranscribeButtonToAudio el doc"
proof (cases "subtree doc el")
  case None
  then show ?thesis by (simp add: addTranscribeButtonToAudio_def)
next
  case (Some e)
  from settled_noop[OF settled_scan[OF Some]] show ?thesis .
qed

lemma controls_list_append: "controls_list (xs @ ys) = controls_list xs @ controls_list ys"
  by (induction xs) auto

lemma count_controls_update:
  "i < length ks \<Longrightarrow> count_list (controls k') a = count_list (controls (ks ! i)) a + d \<Longrightarrow>
   count_list (controls_list (ks[i := k'])) a = count_list (controls_list ks) a + d"
  by (induction ks arbitrary: i) (auto simp: nth_Cons' split: nat.splits if_splits)

lemma count_controls_modify:
  "subtree doc p = Some par \<Longrightarrow> count_list (controls (f par)) a = count_list (controls par) a + d \<Longrightarrow>
   count_list (controls (modify p f doc)) a = count_list (controls doc) a + d"
proof (induction p arbitrary: doc)
  case Nil
  then show ?case by simp
next
  case (Cons i p)
  obtain t c s l ks where doc: "doc = Node t c s l ks" by (cases doc)
  from Cons.prems(1) doc have i: "i < length ks" and st: "subtree (ks ! i) p = Some par"
    by (auto split: if_splits)
  from Cons.IH[OF st Cons.prems(2)]
  have "count_list (controls (modify p f (ks ! i))) a = count_list (controls (ks ! i)) a + d" .
  from count_controls_update[OF i this] show ?case using doc i by (simp add: set_kids_def)
qed

lemma count_controls_appendChild:
  "count_list (controls (appendChild (transcribe_button a') par)) a =
   count_list (controls par) a + (if a' = a then 1 else 0)"
  by (cases par) (simp add: appendChild_def set_kids_def controls_list_append transcribe_button_def)

lemma controls_of_add:
  "controls_of a (addTranscribeButton a' doc) =
   controls_of a doc + (if a' = a \<and> parentElement a doc \<noteq> None \<and> \<not> bound a doc then 1 else 0)"
proof (cases "parentElement a' doc")
  case None
  then show ?thesis by (auto simp: addTranscribeButton_def)
next
  case (Some pr)
  then obtain par where a': "a' \<noteq> []" and st: "subtree doc (butlast a') = Some par" and pr: "pr = (butlast a', par)"
    by (auto simp: parentElement_def split: if_splits option.splits)
  show ?thesis
  proof (cases "querySelector par = None")
    case True
    then have "addTranscribeButton a' doc = modify (butlast a') (appendChild (transcribe_button a')) doc"
      using a' st by (simp add: addTranscribeButton_def parentElement_def)
    moreover have "\<not> bound a' doc" using True a' st by (simp add: bound_def parentElement_def has_marker_def)
    ultimately show ?thesis
      using count_controls_modify[of doc "butlast a'" par "appendChild (transcribe_button a')" a
          "if a' = a then 1 else 0", OF st count_controls_appendChild[of a' par a]] Some
      by (auto simp: controls_of_def)
  next
    case False
    then have "addTranscribeButton a' doc = doc" "bound a' doc"
      using a' st by (auto simp: addTranscribeButton_def parentElement_def bound_def has_marker_def)
    then show ?thesis by auto
  qed
qed

lemma controls_of_fold_bound:
  "bound a doc \<Longrightarrow> controls_of a (fold addTranscribeButton as doc) = controls_of a doc"
proof (induction as arbitrary: doc)
  case Nil
  then show ?case by simp
next
  case (Cons a' as)
  have "bound a (addTranscribeButton a' doc)"
    using Cons.prems grows_addTranscribeButton by (rule bound_grows)
  from Cons.IH[OF this] show ?case using Cons.prems by (simp add: controls_of_add)
qed

lemma controls_of_fold_le:
  "controls_of a (fold addTranscribeButton as doc) \<le> controls_of a doc + 1"
proof (induction as arbitrary: doc)
  case Nil
  then show ?case by simp
next
  case (Cons a' as)
  show ?case
  proof (cases "a' = a \<and> parentElement a doc \<noteq> None")
    case True
    then have "bound a (addTranscribeButton a' doc)" by (simp add: bound_addTranscribeButton)
    from controls_of_fold_bound[OF this] show ?thesis by (simp add: controls_of_add)
  next
    case False
    then have "controls_of a (addTranscribeButton a' doc) = controls_of a doc"
      by (auto simp: controls_of_add)
    with Cons.IH[of "addTranscribeButton a' doc"] show ?thesis by simp
  qed
qed

lemma controls_of_scan_le:
  "controls_of a (addTranscribeButtonToAudio el doc) \<le> controls_of a doc + 1"
  using controls_of_fold_le[of a _ doc]
  by (auto simp: addTranscribeButtonToAudio_def split: option.splits)

lemma controls_of_scan_bound:
  "bound a doc \<Longrightarrow> controls_of a (addTranscribeButtonToAudio el doc) = controls_of a doc"
  by (simp add: addTranscribeButtonToAudio_def controls_of_fold_bound split: option.splits)

lemma grows_on_mutations: "grows doc (on_mutations ms doc)"
  unfolding on_mutations_def
proof (induction ms arbitrary: doc)
  case Nil
  show ?case by (simp add: grows_refl)
next
  case (Cons m ms)
  let ?d = "if mtype m = ''childList'' then addTranscribeButtonToAudio (target m) doc else doc"
  have "grows doc ?d" by (simp add: grows_scan grows_refl)
  from grows_trans[OF this Cons.IH[of ?d]] show ?case by simp
qed

lemma on_mutations_settled:
  "\<forall>m\<in>set ms. subtree doc (target m) \<noteq> None \<Longrightarrow>
   \<forall>m\<in>set ms. mtype m = ''childList'' \<longrightarrow> settled (target m) (on_mutations ms doc)"
proof (induction ms arbitrary: doc)
  case Nil
  show ?case by simp
next
  case (Cons m ms)
  let ?d = "if mtype m = ''childList'' then addTranscribeButtonToAudio (target m) doc else doc"
  have g: "grows doc ?d" by (simp add: grows_scan grows_refl)
  have eq: "on_mutations (m # ms) doc = on_mutations ms ?d" by (simp add: on_mutations_def)
  have "\<forall>m\<in>set ms. subtree ?d (target m) \<noteq> None"
  proof
    fix m' assume "m' \<in> set ms"
    with Cons.prems obtain e where "subtree doc (target m') = Some e" by auto
    from grows_subtree[OF g this] show "subtree ?d (target m') \<noteq> None" by auto
  qed
  from Cons.IH[OF this] have rest: "\<forall>m\<in>set ms. mtype m = ''childList'' \<longrightarrow> settled (target m) (on_mutations ms ?d)" .
  have "mtype m = ''childList'' \<longrightarrow> settled (target m) (on_mutations ms ?d)"
  proof
    assume c: "mtype m = ''childList''"
    from Cons.prems obtain e where "subtree doc (target m) = Some e" by auto
    from settled_scan[OF this] c have "settled (target m) ?d" by simp
    then show "settled (target m) (on_mutations ms ?d)" using grows_on_mutations by (rule settled_grows)
  qed
  with rest eq show ?case by simp
qed

lemma on_mutations_noop:
  "\<forall>m\<in>set ms. mtype m = ''childList'' \<longrightarrow> settled (target m) doc \<Longrightarrow> on_mutations ms doc = doc"
  by (induction ms) (auto simp: on_mutations_def settled_noop)

lemma on_mutations_idem:
  "\<forall>m\<in>set ms. subtree doc (target m) \<noteq> None \<Longrightarrow>
   on_mutations ms (on_mutations ms doc) = on_mutations ms doc"
  by (rule on_mutations_noop) (rule on_mutations_settled)

section \<open>Time: lemmas\<close>

lemma static_set_text [simp]: "static (set_text k s w) = static w"
  by (simp add: set_text_def static_def)

lemma shape_set_text [simp]: "shape (set_text k s w) = shape w"
  by (simp add: set_text_def shape_def)

lemma static_tick [simp]: "static (tick i w) = static w"
  by (simp add: tick_def static_def Let_def set_text_def)

lemma shape_tick [simp]: "i < length (intervals w) \<Longrightarrow> shape (tick i w) = shape w"
  by (simp add: tick_def shape_def Let_def set_text_def map_update list_update_same_conv)

lemma static_fire_interval [simp]: "static (fire_interval i w) = static w"
  by (simp add: fire_interval_def Let_def) (simp add: static_def)

lemma shape_fire_interval [simp]: "i < length (intervals w) \<Longrightarrow> shape (fire_interval i w) = shape w"
  by (simp add: fire_interval_def Let_def) (simp add: shape_def map_update list_update_same_conv)

lemma static_fire_timeout [simp]: "static (fire_timeout i w) = static w"
  by (simp add: fire_timeout_def Let_def remove_indicator_def static_def)

lemma shape_fire_timeout [simp]: "shape (fire_timeout i w) = shape w"
  by (simp add: fire_timeout_def Let_def remove_indicator_def shape_def)

lemma clock_fire_interval [simp]: "clock (fire_interval i w) = clock w"
  by (simp add: fire_interval_def Let_def tick_def set_text_def)

lemma clock_fire_timeout [simp]: "clock (fire_timeout i w) = clock w"
  by (simp add: fire_timeout_def Let_def remove_indicator_def)

lemma length_intervals_fire_interval [simp]:
  "length (intervals (fire_interval i w)) = length (intervals w)"
  by (simp add: fire_interval_def Let_def tick_def set_text_def)

lemma fold_fire_interval:
  "\<forall>i\<in>set is. i < length (intervals w) \<Longrightarrow>
   static (fold fire_interval is w) = static w \<and> shape (fold fire_interval is w) = shape w
   \<and> clock (fold fire_interval is w) = clock w"
proof (induction "is" arbitrary: w)
  case Nil
  show ?case by simp
next
  case (Cons i "is")
  from Cons.prems have "\<forall>k\<in>set is. k < length (intervals (fire_interval i w))" by simp
  from Cons.IH[OF this] Cons.prems show ?case by simp
qed

lemma fold_fire_timeout:
  "static (fold fire_timeout ks w) = static w \<and> shape (fold fire_timeout ks w) = shape w
   \<and> clock (fold fire_timeout ks w) = clock w"
  by (induction ks arbitrary: w) auto

lemma elapse_frame: "static (elapse w) = static w \<and> shape (elapse w) = shape w \<and> clock (elapse w) = Suc (clock w)"
proof -
  let ?w1 = "w\<lparr>clock := clock w + 1\<rparr>"
  have a: "static ?w1 = static w" "shape ?w1 = shape w" by (simp_all add: static_def shape_def)
  have "\<forall>i\<in>set [0..<length (intervals ?w1)]. i < length (intervals ?w1)" by simp
  from fold_fire_interval[OF this] fold_fire_timeout a show ?thesis
    by (simp add: elapse_def Let_def)
qed

lemma advance_frame: "static (advance d w) = static w \<and> shape (advance d w) = shape w \<and> clock (advance d w) = clock w + d"
  by (induction d arbitrary: w) (simp_all add: elapse_frame)

section \<open>The orchestrator: lemmas\<close>

lemmas ops =
  set_text_def remove_indicator_def setInterval_def clearInterval_def setTimeout_remove_def
  fetch_def notify_def notice_def console_error_def set_job_def

lemma querySelector_valid:
  "querySelector n = Some p \<Longrightarrow> p \<noteq> [] \<and> subtree n p \<noteq> None"
  "querySelector_list i ks = Some p \<Longrightarrow>
     (\<exists>j q. p = (i + j) # q \<and> j < length ks \<and> subtree (ks ! j) q \<noteq> None)"
proof (induction n and i ks arbitrary: p and p rule: querySelector_querySelector_list.induct)
  case (1 t c s l ks)
  from "1.prems" have "querySelector_list 0 ks = Some p" by simp
  from "1.IH"[OF this] show ?case by auto
next
  case (2 i)
  then show ?case by simp
next
  case (3 i k ks)
  show ?case
  proof (cases "''transcribe-button'' \<in> set (classes k)")
    case True
    with "3.prems" have "p = (i + 0) # [] \<and> 0 < length (k # ks) \<and> subtree ((k # ks) ! 0) [] \<noteq> None"
      by simp
    then show ?thesis by blast
  next
    case False
    show ?thesis
    proof (cases "querySelector k")
      case None
      with False "3.prems" have "querySelector_list (Suc i) ks = Some p" by simp
      from "3.IH"(2)[OF False None this] obtain j q where
        "p = (Suc i + j) # q" "j < length ks" "subtree (ks ! j) q \<noteq> None" by blast
      then have "p = (i + Suc j) # q \<and> Suc j < length (k # ks) \<and> subtree ((k # ks) ! Suc j) q \<noteq> None"
        by simp
      then show ?thesis by blast
    next
      case (Some q)
      with False "3.prems" have p: "p = i # q" by simp
      from "3.IH"(1)[OF False Some] have "subtree k q \<noteq> None" by simp
      with p have "p = (i + 0) # q \<and> 0 < length (k # ks) \<and> subtree ((k # ks) ! 0) q \<noteq> None"
        by simp
      then show ?thesis by blast
    qed
  qed
qed

lemma find_button_parent:
  assumes "find_button a doc = Some b"
  shows "parentElement b doc \<noteq> None"
proof -
  from assms obtain par q where par: "subtree doc (butlast a) = Some par"
    and q: "querySelector par = Some q" and b: "b = butlast a @ q"
    by (auto simp: find_button_def parentElement_def split: if_splits option.splits)
  from querySelector_valid(1)[OF q] obtain m where q0: "q \<noteq> []" and m: "subtree par q = Some m"
    by auto
  from q0 b have "butlast b = butlast a @ butlast q" by (simp add: butlast_append)
  moreover have "subtree doc (butlast a @ butlast q) \<noteq> None"
    using subtree_append[OF par] subtree_butlast[OF m] by simp
  ultimately show ?thesis using q0 b by (auto simp: parentElement_def)
qed

lemma displayTranscriptionResult_insertion:
  "displayTranscriptionResult a t w =
     (case insertion a t w of
        Inl e \<Rightarrow> Inl e
      | Inr (ed, ns) \<Rightarrow> Inr (w\<lparr>editor := ed, notices := notices w @ ns\<rparr>))"
proof (cases "find_button a (page w)")
  case None
  then show ?thesis by (simp add: displayTranscriptionResult_def insertion_def notice_def)
next
  case (Some b)
  from find_button_parent[OF Some] obtain bp where "parentElement b (page w) = Some bp" by auto
  with Some show ?thesis
    by (simp add: displayTranscriptionResult_def insertion_def notice_def Let_def getCursor_def
        split: sum.splits)
qed

lemma insertion_frame:
  "page w' = page w \<Longrightarrow> markdownActive w' = markdownActive w \<Longrightarrow> editor w' = editor w \<Longrightarrow>
   insertion a t w' = insertion a t w"
  by (simp add: insertion_def cong: sum.case_cong)

lemma settle_complete:
  assumes "jid < length (jobs w)" "progressIndicator (jobs w ! jid) < length (indicators w)"
    "dotInterval (jobs w ! jid) < length (intervals w)"
  shows "settle jid (complete jid w) = finished jid w"
proof -
  let ?j = "jobs w ! jid"
  let ?w1 = "clearInterval (dotInterval ?j) w"
  have i: "insertion (audioElement ?j) (finalText ?j) ?w1 = insertion (audioElement ?j) (finalText ?j) w"
    by (rule insertion_frame) (simp_all add: ops)
  show ?thesis
  proof (cases "insertion (audioElement ?j) (finalText ?j) w")
    case (Inl e)
    with i assms show ?thesis
      by (simp add: complete_def settle_def finished_def failed_def Let_def
          displayTranscriptionResult_insertion catch_block_def finally_block_def ops)
  next
    case (Inr p)
    obtain ed ns where "p = (ed, ns)" by (cases p)
    with Inr i assms show ?thesis
      by (simp add: complete_def settle_def finished_def Let_def
          displayTranscriptionResult_insertion finally_block_def ops)
  qed
qed

lemma start_eq:
  "transcribeAudio_start a w =
     w\<lparr>indicators := indicators w @
         [\<lparr>textContent = ''Transcribing: '' @
             (if last_segment (case subtree (page w) a of None \<Rightarrow> [] | Some n \<Rightarrow> src n) = []
              then ''Unknown File''
              else last_segment (case subtree (page w) a of None \<Rightarrow> [] | Some n \<Rightarrow> src n)),
           attached = (parentElement a (page w) \<noteq> None)\<rparr>],
       intervals := intervals w @
         [\<lparr>owner = length (jobs w), ticker = Transcribing, dotCount = 0, due = clock w + 500,
           active = True\<rparr>],
       jobs := jobs w @
         [\<lparr>audioElement = a,
           audioUrl = (case subtree (page w) a of None \<Rightarrow> [] | Some n \<Rightarrow> src n),
           audioFileName =
             (if last_segment (case subtree (page w) a of None \<Rightarrow> [] | Some n \<Rightarrow> src n) = []
              then ''Unknown File''
              else last_segment (case subtree (page w) a of None \<Rightarrow> [] | Some n \<Rightarrow> src n)),
           progressIndicator = length (indicators w), dotInterval = length (intervals w),
           transcription = JUndefined, finalText = JUndefined, stage = AwaitProbe\<rparr>],
       requests := requests w @ [Get (''http://'' @ settingWhisperIP (settings w))]\<rparr>"
  by (simp add: transcribeAudio_start_def Let_def setInterval_def
      checkWhisperServerAvailability_request_def fetch_def)

lemma resume_probe_fail:
  assumes "waiting w jid AwaitProbe" "r = Rejected \<or> (\<exists>b. r = Response False b)"
  shows "resume jid (ProbeSettled r) w =
    w\<lparr>jobs := (jobs w)[jid := (jobs w ! jid)\<lparr>stage := Returned\<rparr>],
      indicators := (indicators w)[progressIndicator (jobs w ! jid) :=
         (indicators w ! progressIndicator (jobs w ! jid))\<lparr>textContent := ''Failed: Server Unavailable''\<rparr>],
      intervals := (intervals w)[dotInterval (jobs w ! jid) :=
         (intervals w ! dotInterval (jobs w ! jid))\<lparr>active := False\<rparr>],
      timeouts := timeouts w @
         [\<lparr>fires = clock w + 3000, removes = progressIndicator (jobs w ! jid), pending = True\<rparr>,
          \<lparr>fires = clock w + 3000, removes = progressIndicator (jobs w ! jid), pending = True\<rparr>],
      notifications := notifications w @ [(''Whisper Server Unavailable'',
         ''The local Whisper server is not available. Please ensure it is running on port 9000.'')],
      console := console w @ (if r = Rejected then [(''Whisper server is not available:'', FetchFailed)] else [])\<rparr>"
  using assms
  by (auto simp: waiting_def resume_def settle_def after_probe_def finally_block_def
      checkWhisperServerAvailability_result_def await_fetch_def ops Let_def)

lemma resume_probe_ok:
  assumes "waiting w jid AwaitProbe"
  shows "resume jid (ProbeSettled (Response True b)) w =
    w\<lparr>jobs := (jobs w)[jid := (jobs w ! jid)\<lparr>stage := AwaitAudio\<rparr>],
      notifications := notifications w @
         [(''Transcription Request'', ''Transcribing: '' @ audioFileName (jobs w ! jid))],
      requests := requests w @ [Get (audioUrl (jobs w ! jid))]\<rparr>"
  using assms
  by (auto simp: waiting_def resume_def settle_def after_probe_def
      checkWhisperServerAvailability_result_def await_fetch_def ops Let_def)


lemma resume_audio_ok:
  assumes "waiting w jid AwaitAudio"
  shows "resume jid (AudioSettled (Response ok (Some file))) w =
    w\<lparr>jobs := (jobs w)[jid := (jobs w ! jid)\<lparr>stage := AwaitWhisper\<rparr>],
      requests := requests w @
        [PostForm (''http://'' @ settingWhisperIP (settings w) @ ''/asr?output=json'')
           ''audio_file'' (audioFileName (jobs w ! jid)) ''audio/mp3'' file]\<rparr>"
  using assms
  by (auto simp: waiting_def resume_def settle_def after_audio_def fetchTranscription_request_def
      await_fetch_def ops Let_def)


lemma resume_whisper_ollama:
  assumes "waiting w jid AwaitWhisper" "fetchTranscription_result r = Inr t"
    "settingOllamaToggle (settings w)"
  shows "resume jid (WhisperSettled r) w =
    w\<lparr>jobs := (jobs w)[jid := (jobs w ! jid)\<lparr>transcription := t, finalText := t, stage := AwaitOllama\<rparr>],
      intervals := (intervals w)[dotInterval (jobs w ! jid) :=
         (intervals w ! dotInterval (jobs w ! jid))\<lparr>active := False\<rparr>] @
         [\<lparr>owner = jid, ticker = Processing, dotCount = 0, due = clock w + 500, active = True\<rparr>],
      requests := requests w @
        [PostJson (''http://'' @ settingOllamaIP (settings w) @ ''/api/chat'')
              (JObj [(''model'', JStr ''llama3.2''),
                     (''messages'', JArr [JObj [(''role'', JStr ''user''),
                        (''content'', JStr (settingOllamaPrompt (settings w) @
                           ''\<newline>\<newline>'' @ toString t))]]),
                     (''stream'', JBool False)])]\<rparr>"
  using assms
  by (auto simp: waiting_def resume_def settle_def after_whisper_def processWithOllama_request_def
      ops Let_def)

lemma resume_whisper_done:
  assumes "waiting w jid AwaitWhisper" "fetchTranscription_result r = Inr t"
    "\<not> settingOllamaToggle (settings w)"
  shows "resume jid (WhisperSettled r) w =
    finished jid (w\<lparr>jobs := (jobs w)[jid := (jobs w ! jid)\<lparr>transcription := t, finalText := t\<rparr>]\<rparr>)"
proof -
  let ?w1 = "w\<lparr>jobs := (jobs w)[jid := (jobs w ! jid)\<lparr>transcription := t, finalText := t\<rparr>]\<rparr>"
  let ?w2 = "clearInterval (dotInterval (jobs ?w1 ! jid)) ?w1"
  have "resume jid (WhisperSettled r) w = settle jid (complete jid ?w2)"
    using assms by (simp add: waiting_def resume_def after_whisper_def set_job_def Let_def clearInterval_def)
  also have "\<dots> = finished jid ?w2"
    using assms by (intro settle_complete) (simp_all add: waiting_def clearInterval_def)
  also have "\<dots> = finished jid ?w1"
    using assms by (simp add: finished_def failed_def insertion_def waiting_def clearInterval_def split: sum.splits)
  finally show ?thesis .
qed

lemma resume_ollama:
  assumes "waiting w jid AwaitOllama"
  shows "resume jid (OllamaSettled r) w =
    finished jid ((snd (processWithOllama_result r w))
       \<lparr>jobs := (jobs w)[jid := (jobs w ! jid)\<lparr>finalText := fst (processWithOllama_result r w)\<rparr>]\<rparr>)"
proof -
  obtain t w1 where p: "processWithOllama_result r w = (t, w1)" by (cases "processWithOllama_result r w")
  then have w1: "w1 = w \<or> (\<exists>e. w1 = console_error ''Error processing with Ollama:'' e w)"
    by (auto simp: processWithOllama_result_def split: sum.splits)
  let ?w2 = "w1\<lparr>jobs := (jobs w)[jid := (jobs w ! jid)\<lparr>finalText := t\<rparr>]\<rparr>"
  have "resume jid (OllamaSettled r) w = settle jid (complete jid ?w2)"
    using assms p w1 by (auto simp: waiting_def resume_def after_ollama_def set_job_def console_error_def)
  also have "\<dots> = finished jid ?w2"
    using assms w1 by (intro settle_complete) (auto simp: waiting_def console_error_def)
  finally show ?thesis using p by simp
qed

lemma advance_static [simp]:
  "settings (advance d w) = settings w" "page (advance d w) = page w"
  "markdownActive (advance d w) = markdownActive w" "editor (advance d w) = editor w"
  "jobs (advance d w) = jobs w" "requests (advance d w) = requests w"
  "notifications (advance d w) = notifications w" "notices (advance d w) = notices w"
  "console (advance d w) = console w"
  using advance_frame[of d w] by (simp_all add: static_def)

lemma advance_shape [simp]:
  "length (indicators (advance d w)) = length (indicators w)"
  "length (intervals (advance d w)) = length (intervals w)"
  "length (timeouts (advance d w)) = length (timeouts w)"
  "clock (advance d w) = clock w + d"
proof -
  from advance_frame[of d w] have s: "shape (advance d w) = shape w" and c: "clock (advance d w) = clock w + d"
    by simp_all
  from s show "length (indicators (advance d w)) = length (indicators w)"
    "length (timeouts (advance d w)) = length (timeouts w)" by (simp_all add: shape_def)
  from s have "map (\<lambda>iv. (owner iv, ticker iv, active iv)) (intervals (advance d w)) =
     map (\<lambda>iv. (owner iv, ticker iv, active iv)) (intervals w)" by (simp add: shape_def)
  then have "length (map (\<lambda>iv. (owner iv, ticker iv, active iv)) (intervals (advance d w))) =
     length (map (\<lambda>iv. (owner iv, ticker iv, active iv)) (intervals w))" by simp
  then show "length (intervals (advance d w)) = length (intervals w)" by simp
  from c show "clock (advance d w) = clock w + d" .
qed

lemma advance_interval_shape:
  assumes "i < length (intervals w)"
  shows "owner (intervals (advance d w) ! i) = owner (intervals w ! i)"
    "ticker (intervals (advance d w) ! i) = ticker (intervals w ! i)"
    "active (intervals (advance d w) ! i) = active (intervals w ! i)"
proof -
  let ?f = "\<lambda>iv. (owner iv, ticker iv, active iv)"
  from advance_frame[of d w] have "map ?f (intervals (advance d w)) = map ?f (intervals w)"
    by (simp add: shape_def)
  then have "map ?f (intervals (advance d w)) ! i = map ?f (intervals w) ! i" by simp
  with assms have "?f (intervals (advance d w) ! i) = ?f (intervals w ! i)" by simp
  then show "owner (intervals (advance d w) ! i) = owner (intervals w ! i)"
    "ticker (intervals (advance d w) ! i) = ticker (intervals w ! i)"
    "active (intervals (advance d w) ! i) = active (intervals w ! i)" by simp_all
qed

lemma waiting_advance [simp]: "waiting (advance d w) jid st = waiting w jid st"
  by (simp add: waiting_def)

lemma waiting_start: "waiting (transcribeAudio_start a w) (length (jobs w)) AwaitProbe"
  by (simp add: start_eq waiting_def)

lemma deliver_waiting:
  "waiting w jid st \<Longrightarrow> st \<noteq> Returned \<Longrightarrow> deliver jid ms ev w = resume jid ev (advance ms w)"
  by (simp add: deliver_def waiting_def)

lemma deliver_returned:
  "jid < length (jobs w) \<Longrightarrow> stage (jobs w ! jid) = Returned \<Longrightarrow> deliver jid ms ev w = w"
  by (simp add: deliver_def)

lemma failed_props:
  assumes "jid < length (jobs w)" "progressIndicator (jobs w ! jid) < length (indicators w)"
  shows "jobs (failed jid e w) = (jobs w)[jid := (jobs w ! jid)\<lparr>stage := Returned\<rparr>]"
    "textContent (indicators (failed jid e w) ! progressIndicator (jobs w ! jid)) = ''Failed: Transcription Error''"
    "console (failed jid e w) = console w @ [(''Transcription failed:'', e)]"
    "requests (failed jid e w) = requests w" "editor (failed jid e w) = editor w"
    "length (indicators (failed jid e w)) = length (indicators w)"
  using assms by (simp_all add: failed_def)


lemma waiting_at_probe: "waiting (at_probe a r w) (length (jobs w)) AwaitProbe"
  by (simp add: at_probe_def waiting_start)

lemma length_jobs_at_probe: "length (jobs (at_probe a r w)) = Suc (length (jobs w))"
  by (simp add: at_probe_def start_eq)

lemma waiting_at_audio:
  assumes "probe r = Response True b"
  shows "waiting (at_audio a r w) (length (jobs w)) AwaitAudio"
  using waiting_at_probe[of a r w] assms
  by (simp add: at_audio_def resume_probe_ok) (simp add: waiting_def)

lemma waiting_at_whisper:
  assumes "probe r = Response True b" "audio r = Response ok (Some bytes)"
  shows "waiting (at_whisper a r w) (length (jobs w)) AwaitWhisper"
  using waiting_at_audio[of r b a w] assms
  by (simp add: at_whisper_def resume_audio_ok) (simp add: waiting_def)

lemma settings_finished [simp]: "settings (finished jid w) = settings w"
  by (simp add: finished_def failed_def split: sum.splits prod.splits)

lemma settings_at_whisper:
  assumes "probe r = Response True b" "audio r = Response ok (Some bytes)"
  shows "settings (at_whisper a r w) = settings w"
proof -
  have "settings (at_audio a r w) = settings w"
    using waiting_at_probe[of a r w] assms(1)
    by (simp add: at_audio_def resume_probe_ok) (simp add: at_probe_def start_eq)
  then show ?thesis
    using waiting_at_audio[OF assms(1), of a w] assms(2)
    by (simp add: at_whisper_def resume_audio_ok)
qed

lemma waiting_at_ollama:
  assumes "probe r = Response True b" "audio r = Response ok (Some bytes)"
    "fetchTranscription_result (whisper r) = Inr t" "settingOllamaToggle (settings w)"
  shows "waiting (at_ollama a r w) (length (jobs w)) AwaitOllama"
proof -
  have s: "settings (at_whisper a r w) = settings w"
    using assms(1,2) by (rule settings_at_whisper)
  from waiting_at_whisper[OF assms(1,2), of a w] assms s show ?thesis
    by (simp add: at_ollama_def resume_whisper_ollama) (simp add: waiting_def nth_append)
qed

lemma run_probe_fail:
  assumes "probe r = Rejected \<or> (\<exists>b. probe r = Response False b)"
  shows "transcribeAudio a r w = resume (length (jobs w)) (ProbeSettled (probe r)) (at_probe a r w)"
proof -
  let ?jid = "length (jobs w)"
  let ?w1 = "resume ?jid (ProbeSettled (probe r)) (at_probe a r w)"
  have d1: "deliver ?jid (probe_ms r) (ProbeSettled (probe r)) (transcribeAudio_start a w) = ?w1"
    by (simp add: deliver_waiting[OF waiting_start] at_probe_def)
  have "?jid < length (jobs ?w1) \<and> stage (jobs ?w1 ! ?jid) = Returned"
    using waiting_at_probe[of a r w] assms
    by (simp add: resume_probe_fail) (simp add: waiting_def)
  then show ?thesis
    by (simp add: transcribeAudio_def Let_def d1 deliver_returned)
qed


lemma run_prefix_whisper:
  assumes "probe r = Response True b" "audio r = Response ok (Some bytes)"
  shows "transcribeAudio a r w =
     deliver (length (jobs w)) (ollama_ms r) (OllamaSettled (ollama r))
       (resume (length (jobs w)) (WhisperSettled (whisper r)) (at_whisper a r w))"
proof -
  let ?jid = "length (jobs w)"
  let ?w1 = "resume ?jid (ProbeSettled (probe r)) (at_probe a r w)"
  let ?w2 = "resume ?jid (AudioSettled (audio r)) (at_audio a r w)"
  have d1: "deliver ?jid (probe_ms r) (ProbeSettled (probe r)) (transcribeAudio_start a w) = ?w1"
    by (simp add: deliver_waiting[OF waiting_start] at_probe_def)
  have w1: "waiting ?w1 ?jid AwaitAudio"
    using waiting_at_audio[OF assms(1), of a w] by (simp add: at_audio_def)
  have d2: "deliver ?jid (audio_ms r) (AudioSettled (audio r)) ?w1 = ?w2"
    by (simp add: deliver_waiting[OF w1] at_audio_def)
  have w2: "waiting ?w2 ?jid AwaitWhisper"
    using waiting_at_whisper[OF assms, of a w] by (simp add: at_whisper_def)
  have d3: "deliver ?jid (whisper_ms r) (WhisperSettled (whisper r)) ?w2 =
      resume ?jid (WhisperSettled (whisper r)) (at_whisper a r w)"
    by (simp add: deliver_waiting[OF w2] at_whisper_def)
  show ?thesis by (simp add: transcribeAudio_def Let_def d1 d2 d3)
qed



lemma run_ollama:
  assumes "probe r = Response True b" "audio r = Response ok (Some bytes)"
    "fetchTranscription_result (whisper r) = Inr t" "settingOllamaToggle (settings w)"
  shows "transcribeAudio a r w =
    resume (length (jobs w)) (OllamaSettled (ollama r)) (at_ollama a r w)"
proof -
  let ?jid = "length (jobs w)"
  let ?w3 = "resume ?jid (WhisperSettled (whisper r)) (at_whisper a r w)"
  have "waiting ?w3 ?jid AwaitOllama"
    using waiting_at_ollama[OF assms, of a] by (simp add: at_ollama_def)
  from deliver_waiting[OF this] show ?thesis
    by (simp add: run_prefix_whisper[OF assms(1,2)] at_ollama_def)
qed

lemma processWithOllama_result_fail:
  assumes "r = Rejected \<or> (\<exists>body. r = Response False body) \<or> r = Response True None"
  shows "\<exists>e. processWithOllama_result r w =
     (JStr ''Failed to process text with Ollama.'', console_error ''Error processing with Ollama:'' e w)"
  using assms
  by (auto simp: processWithOllama_result_def processWithOllama_try_def await_fetch_def)

lemma trim_fallback: "trim ''Failed to process text with Ollama.'' = ''Failed to process text with Ollama.''"
  by (simp add: trim_def is_space_def)

lemma same_job_at_probe: "same_job a w (at_probe a r w)"
  by (simp add: same_job_def at_probe_def start_eq)

lemma same_job_at_audio:
  assumes "probe r = Response True b"
  shows "same_job a w (at_audio a r w)"
  using waiting_at_probe[of a r w] same_job_at_probe[of a w r] assms
  by (simp add: at_audio_def resume_probe_ok same_job_def)

lemma same_job_at_whisper:
  assumes "probe r = Response True b" "audio r = Response ok (Some bytes)"
  shows "same_job a w (at_whisper a r w)"
  using waiting_at_audio[OF assms(1), of a w] same_job_at_audio[OF assms(1), of a w] assms(2)
  by (simp add: at_whisper_def resume_audio_ok same_job_def)

lemma same_job_at_ollama:
  assumes "probe r = Response True b" "audio r = Response ok (Some bytes)"
    "fetchTranscription_result (whisper r) = Inr t" "settingOllamaToggle (settings w)"
  shows "same_job a w (at_ollama a r w)"
proof -
  have s: "settingOllamaToggle (settings (at_whisper a r w))"
    using assms(4) by (simp add: settings_at_whisper[OF assms(1,2)])
  show ?thesis
    using waiting_at_whisper[OF assms(1,2), of a w] same_job_at_whisper[OF assms(1,2), of a w] assms(3) s
    by (simp add: at_ollama_def resume_whisper_ollama same_job_def)
qed

lemma insertion_string: "\<exists>ed ns. insertion a (JStr s) w = Inr (ed, ns)"
  by (simp add: insertion_def)

section \<open>The examples: lemmas\<close>

lemma demo_button: "find_button [0, 0] demo_page = Some [0, 1]"
  by (simp add: find_button_def parentElement_def demo_page_def)

lemma demo_insert:
  "setCursor (Suc 0, 35) (replaceRange ''Failed to process text with Ollama.'' (Suc 0, 0)
      \<lparr>doc_lines = [''first'', ''second'', ''third''], cursor = (0, 2)\<rparr>) =
   \<lparr>doc_lines = [''first'', ''Failed to process text with Ollama.second'', ''third''],
    cursor = (Suc 0, 35)\<rparr>"
  by (simp add: setCursor_def replaceRange_def the_lines_def clipPos_def Let_def)

lemma scan_demo_page0:
  "addTranscribeButtonToAudio [] demo_page0 =
     Node ''div'' [] [] None
       [Node ''span'' [''internal-embed''] [] None
          [Node ''audio'' [] ''app://local/notes/memo.mp3'' None [],
           Node ''button'' [''transcribe-button''] [] (Some [0, 0]) []]]"
  by (simp add: addTranscribeButtonToAudio_def demo_page0_def addTranscribeButton_def
      parentElement_def appendChild_def transcribe_button_def set_kids_def)

lemma resume_completes:
  assumes "completes w jid ev t"
  shows "\<exists>w1. resume jid ev w = finished jid w1 \<and> jid < length (jobs w1) \<and>
     finalText (jobs w1 ! jid) = t \<and> audioElement (jobs w1 ! jid) = audioElement (jobs w ! jid) \<and>
     progressIndicator (jobs w1 ! jid) = progressIndicator (jobs w ! jid) \<and>
     progressIndicator (jobs w ! jid) < length (indicators w1) \<and>
     page w1 = page w \<and> markdownActive w1 = markdownActive w \<and> editor w1 = editor w \<and>
     notices w1 = notices w"
  using assms unfolding completes_def
proof (elim disjE exE conjE)
  fix r
  assume a: "waiting w jid AwaitWhisper" "ev = WhisperSettled r" "\<not> settingOllamaToggle (settings w)"
    "fetchTranscription_result r = Inr t"
  let ?w1 = "w\<lparr>jobs := (jobs w)[jid := (jobs w ! jid)\<lparr>transcription := t, finalText := t\<rparr>]\<rparr>"
  from resume_whisper_done[OF a(1,4,3)] a(2) have "resume jid ev w = finished jid ?w1" by simp
  moreover from a(1) have "jid < length (jobs ?w1)" "finalText (jobs ?w1 ! jid) = t"
    "audioElement (jobs ?w1 ! jid) = audioElement (jobs w ! jid)"
    "progressIndicator (jobs ?w1 ! jid) = progressIndicator (jobs w ! jid)"
    "progressIndicator (jobs w ! jid) < length (indicators ?w1)"
    by (simp_all add: waiting_def)
  ultimately show ?thesis by (intro exI[of _ ?w1]) simp
next
  fix r
  assume a: "waiting w jid AwaitOllama" "ev = OllamaSettled r" "fst (processWithOllama_result r w) = t"
  let ?p = "snd (processWithOllama_result r w)"
  let ?w1 = "?p\<lparr>jobs := (jobs w)[jid := (jobs w ! jid)\<lparr>finalText := t\<rparr>]\<rparr>"
  have p: "?p = w \<or> (\<exists>e. ?p = console_error ''Error processing with Ollama:'' e w)"
    by (auto simp: processWithOllama_result_def split: sum.splits)
  from resume_ollama[OF a(1), of r] a(2,3) have "resume jid ev w = finished jid ?w1" by simp
  moreover from a(1) p have "jid < length (jobs ?w1)" "finalText (jobs ?w1 ! jid) = t"
    "audioElement (jobs ?w1 ! jid) = audioElement (jobs w ! jid)"
    "progressIndicator (jobs ?w1 ! jid) = progressIndicator (jobs w ! jid)"
    "progressIndicator (jobs w ! jid) < length (indicators ?w1)"
    "page ?w1 = page w" "markdownActive ?w1 = markdownActive w" "editor ?w1 = editor w"
    "notices ?w1 = notices w"
    by (auto simp: waiting_def console_error_def)
  ultimately show ?thesis by (intro exI[of _ ?w1]) simp
qed

lemma default_settings [simp]:
  "settingWhisperIP DEFAULT_SETTINGS = ''192.168.1.10:9000''"
  "settingOllamaIP DEFAULT_SETTINGS = ''192.168.1.10:11434''"
  "settingOllamaToggle DEFAULT_SETTINGS = False"
  by (simp_all add: DEFAULT_SETTINGS_def)

lemma demo_started_eq:
  "demo_started =
     demo_world\<lparr>indicators := [\<lparr>textContent = ''Transcribing: memo.mp3'', attached = True\<rparr>],
       intervals := [\<lparr>owner = 0, ticker = Transcribing, dotCount = 0, due = 500, active = True\<rparr>],
       jobs := [demo_job AwaitProbe],
       requests := [Get ''http://192.168.1.10:9000'']\<rparr>"
  by (simp add: demo_started_def click_def start_eq demo_world_def demo_page_def
      last_segment_def parentElement_def demo_job_def)

lemma demo_probed_eq:
  "demo_probed =
     demo_world\<lparr>indicators := [\<lparr>textContent = ''Transcribing: memo.mp3'', attached = True\<rparr>],
       intervals := [\<lparr>owner = 0, ticker = Transcribing, dotCount = 0, due = 500, active = True\<rparr>],
       jobs := [demo_job AwaitAudio],
       requests := [Get ''http://192.168.1.10:9000'', Get ''app://local/notes/memo.mp3''],
       notifications := [(''Transcription Request'', ''Transcribing: memo.mp3'')]\<rparr>"
proof -
  have "waiting demo_started 0 AwaitProbe" by (simp add: demo_started_eq waiting_def demo_job_def)
  from resume_probe_ok[OF this, of None] show ?thesis
    by (simp add: demo_probed_def demo_run_def) (simp add: demo_started_eq demo_world_def demo_job_def)
qed

lemma demo_uploading_eq:
  "demo_uploading =
     demo_world\<lparr>indicators := [\<lparr>textContent = ''Transcribing: memo.mp3'', attached = True\<rparr>],
       intervals := [\<lparr>owner = 0, ticker = Transcribing, dotCount = 0, due = 500, active = True\<rparr>],
       jobs := [demo_job AwaitWhisper],
       requests := [Get ''http://192.168.1.10:9000'', Get ''app://local/notes/memo.mp3'',
          PostForm ''http://192.168.1.10:9000/asr?output=json'' ''audio_file'' ''memo.mp3''
            ''audio/mp3'' ''bytes''],
       notifications := [(''Transcription Request'', ''Transcribing: memo.mp3'')]\<rparr>"
proof -
  have "waiting demo_probed 0 AwaitAudio" by (simp add: demo_probed_eq waiting_def demo_job_def)
  from resume_audio_ok[OF this, of True "''bytes''"] show ?thesis
    by (simp add: demo_uploading_def demo_run_def) (simp add: demo_probed_eq demo_world_def demo_job_def)
qed



lemma demo_closed_completes:
  "completes demo_closed 0 (WhisperSettled (whisper demo_run)) (JStr '' hello world '')"
  by (simp add: completes_def demo_closed_def demo_uploading_eq waiting_def demo_world_def
      demo_run_def fetchTranscription_result_def await_fetch_def demo_job_def)

lemma click_bound:
  assumes "subtree (page w) b = Some n" and "onclick n = Some a"
  shows "\<exists>j. jobs (click b w) = jobs w @ [j] \<and> audioElement j = a \<and> stage j = AwaitProbe"
    and "page (click b w) = page w"
  using assms by (simp_all add: click_def start_eq)

section \<open>Intervals and timeouts over time: lemmas\<close>

lemma writes_to_cong:
  assumes "shape w' = shape w" "jobs w' = jobs w"
  shows "writes_to w' i x = writes_to w i x"
proof -
  let ?f = "\<lambda>iv. (owner iv, ticker iv, active iv)"
  from assms(1) have m: "map ?f (intervals w') = map ?f (intervals w)" by (simp add: shape_def)
  then have "length (map ?f (intervals w')) = length (map ?f (intervals w))" by simp
  then have l: "length (intervals w') = length (intervals w)" by simp
  have "?f (intervals w' ! i) = ?f (intervals w ! i)" if "i < length (intervals w)"
  proof -
    from m have "map ?f (intervals w') ! i = map ?f (intervals w) ! i" by simp
    with that l show ?thesis by simp
  qed
  with l assms(2) show ?thesis by (auto simp: writes_to_def)
qed

lemma sole_writer_cong:
  assumes "shape w' = shape w" "jobs w' = jobs w"
  shows "sole_writer w' i x = sole_writer w i x"
proof -
  from assms(1) have "length (indicators w') = length (indicators w)" by (simp add: shape_def)
  moreover from assms(1) have "length (map (\<lambda>iv. (owner iv, ticker iv, active iv)) (intervals w')) =
      length (map (\<lambda>iv. (owner iv, ticker iv, active iv)) (intervals w))" by (simp add: shape_def)
  then have "length (intervals w') = length (intervals w)" by simp
  ultimately show ?thesis by (simp add: sole_writer_def writes_to_cong[OF assms])
qed

lemma jobs_of_static: "static w' = static w \<Longrightarrow> jobs w' = jobs w"
  by (simp add: static_def)

text \<open>What one interval does to the text of an indicator and to the state of an interval.\<close>

lemma text_fire_interval:
  assumes "k < length (intervals w)"
  shows "textContent (indicators (fire_interval k w) ! x) =
     (if writes_to w k x \<and> x < length (indicators w) \<and> due (intervals w ! k) = clock w
      then label (jobs w ! owner (intervals w ! k)) (ticker (intervals w ! k))
             (next_count (dotCount (intervals w ! k)))
      else textContent (indicators w ! x))"
  using assms
  by (auto simp: fire_interval_def tick_def set_text_def writes_to_def next_count_def Let_def
      nth_list_update)

lemma interval_fire_interval:
  assumes "k < length (intervals w)" "i < length (intervals w)"
  shows "intervals (fire_interval k w) ! i =
     (if k = i \<and> active (intervals w ! i) \<and> due (intervals w ! i) = clock w
      then (if owner (intervals w ! i) < length (jobs w)
            then (intervals w ! i)\<lparr>due := due (intervals w ! i) + 500,
                    dotCount := next_count (dotCount (intervals w ! i))\<rparr>
            else (intervals w ! i)\<lparr>due := due (intervals w ! i) + 500\<rparr>)
      else intervals w ! i)"
  using assms
  by (auto simp: fire_interval_def tick_def set_text_def next_count_def Let_def nth_list_update)

lemma fire_interval_frame:
  assumes "k < length (intervals w)"
  shows "static (fire_interval k w) = static w" "shape (fire_interval k w) = shape w"
    "clock (fire_interval k w) = clock w" "jobs (fire_interval k w) = jobs w"
    "length (intervals (fire_interval k w)) = length (intervals w)"
proof -
  show "static (fire_interval k w) = static w" "clock (fire_interval k w) = clock w"
    "length (intervals (fire_interval k w)) = length (intervals w)" by simp_all
  show "shape (fire_interval k w) = shape w" using assms by simp
  show "jobs (fire_interval k w) = jobs w" by (rule jobs_of_static) simp
qed

lemma fold_fire_interval_sole:
  assumes "distinct ks" "\<forall>k\<in>set ks. k < length (intervals w)" "sole_writer w i x"
  shows "intervals (fold fire_interval ks w) ! i =
           (if i \<in> set ks \<and> due (intervals w ! i) = clock w then fired (intervals w ! i)
            else intervals w ! i) \<and>
         textContent (indicators (fold fire_interval ks w) ! x) =
           (if i \<in> set ks \<and> due (intervals w ! i) = clock w
            then label (jobs w ! owner (intervals w ! i)) (ticker (intervals w ! i))
                   (next_count (dotCount (intervals w ! i)))
            else textContent (indicators w ! x))"
  using assms
proof (induction ks arbitrary: w)
  case Nil
  then show ?case by simp
next
  case (Cons k ks)
  let ?w' = "fire_interval k w"
  from Cons.prems have k: "k < length (intervals w)" and d: "distinct ks" "k \<notin> set ks"
    and ks: "\<forall>k\<in>set ks. k < length (intervals ?w')" by simp_all
  note fr = fire_interval_frame[OF k]
  from Cons.prems(3) sole_writer_cong[OF fr(2) fr(4), of i x] have sw: "sole_writer ?w' i x"
    by blast
  from Cons.prems(3) have i: "i < length (intervals w)" and wi: "writes_to w i x"
    and x: "x < length (indicators w)"
    and others: "\<And>k. k < length (intervals w) \<Longrightarrow> k \<noteq> i \<Longrightarrow> \<not> writes_to w k x"
    by (auto simp: sole_writer_def writes_to_def)
  note IH = Cons.IH[OF d(1) ks sw]
  show ?case
  proof (cases "k = i")
    case True
    with d(2) have ni: "i \<notin> set ks" by simp
    from wi have a: "active (intervals w ! i)" "owner (intervals w ! i) < length (jobs w)"
      by (simp_all add: writes_to_def)
    have iv: "intervals ?w' ! i =
        (if due (intervals w ! i) = clock w then fired (intervals w ! i) else intervals w ! i)"
      using interval_fire_interval[OF k i] True a by (simp add: fired_def)
    have tx: "textContent (indicators ?w' ! x) =
        (if due (intervals w ! i) = clock w
         then label (jobs w ! owner (intervals w ! i)) (ticker (intervals w ! i))
                (next_count (dotCount (intervals w ! i)))
         else textContent (indicators w ! x))"
      using text_fire_interval[OF k, of x] True wi x by simp
    from IH ni iv tx True show ?thesis by simp
  next
    case False
    from others[OF k False] have nw: "\<not> writes_to w k x" .
    have iv: "intervals ?w' ! i = intervals w ! i"
      using interval_fire_interval[OF k i] False by simp
    have tx: "textContent (indicators ?w' ! x) = textContent (indicators w ! x)"
      using text_fire_interval[OF k, of x] nw by simp
    from IH iv tx False fr(3,4) show ?thesis by simp
  qed
qed

lemma fire_timeout_keeps:
  "intervals (fire_timeout k w) = intervals w"
  "textContent (indicators (fire_timeout k w) ! x) = textContent (indicators w ! x)"
  by (auto simp: fire_timeout_def remove_indicator_def Let_def nth_list_update)

lemma fold_fire_timeout_keeps:
  "intervals (fold fire_timeout ks w) = intervals w \<and>
   textContent (indicators (fold fire_timeout ks w) ! x) = textContent (indicators w ! x)"
  by (induction ks arbitrary: w) (simp_all add: fire_timeout_keeps)

lemma elapse_sole:
  assumes "sole_writer w i x"
  shows "intervals (elapse w) ! i =
           (if due (intervals w ! i) = clock w + 1 then fired (intervals w ! i)
            else intervals w ! i)"
    and "textContent (indicators (elapse w) ! x) =
           (if due (intervals w ! i) = clock w + 1
            then label (jobs w ! owner (intervals w ! i)) (ticker (intervals w ! i))
                   (next_count (dotCount (intervals w ! i)))
            else textContent (indicators w ! x))"
    and "sole_writer (elapse w) i x"
proof -
  let ?w1 = "w\<lparr>clock := clock w + 1\<rparr>"
  have c: "shape ?w1 = shape w" "jobs ?w1 = jobs w" by (simp_all add: shape_def)
  from assms sole_writer_cong[OF c, of i x] have sw: "sole_writer ?w1 i x" by blast
  from assms have i: "i < length (intervals w)" by (simp add: sole_writer_def writes_to_def)
  have "distinct [0..<length (intervals ?w1)]"
    "\<forall>k\<in>set [0..<length (intervals ?w1)]. k < length (intervals ?w1)" by simp_all
  note f = fold_fire_interval_sole[OF this sw]
  let ?w2 = "fold fire_interval [0..<length (intervals ?w1)] ?w1"
  have e: "elapse w = fold fire_timeout [0..<length (timeouts ?w2)] ?w2"
    by (simp add: elapse_def Let_def)
  have "intervals (elapse w) ! i = intervals ?w2 ! i"
    unfolding e using fold_fire_timeout_keeps[of "[0..<length (timeouts ?w2)]" ?w2 x] by simp
  with f i show "intervals (elapse w) ! i =
           (if due (intervals w ! i) = clock w + 1 then fired (intervals w ! i)
            else intervals w ! i)"
    by simp
  have "textContent (indicators (elapse w) ! x) = textContent (indicators ?w2 ! x)"
    unfolding e using fold_fire_timeout_keeps[of "[0..<length (timeouts ?w2)]" ?w2 x] by simp
  with f i show "textContent (indicators (elapse w) ! x) =
           (if due (intervals w ! i) = clock w + 1
            then label (jobs w ! owner (intervals w ! i)) (ticker (intervals w ! i))
                   (next_count (dotCount (intervals w ! i)))
            else textContent (indicators w ! x))"
    by simp
  from elapse_frame[of w] have "shape (elapse w) = shape w" "jobs (elapse w) = jobs w"
    by (simp_all add: static_def)
  from sole_writer_cong[OF this, of i x] assms show "sole_writer (elapse w) i x" by blast
qed

lemma next_count_mod: "c \<le> 5 \<Longrightarrow> next_count c = (c + 1) mod 6"
  by (auto simp: next_count_def)

lemma advance_sole:
  assumes "sole_writer w i x" "due (intervals w ! i) = clock w + k" "1 \<le> k" "k \<le> 500"
    "dotCount (intervals w ! i) = c" "c \<le> 5"
  shows "dotCount (intervals (advance d w) ! i) = (c + (d + 500 - k) div 500) mod 6 \<and>
     textContent (indicators (advance d w) ! x) =
       (if d < k then textContent (indicators w ! x)
        else label (jobs w ! owner (intervals w ! i)) (ticker (intervals w ! i))
               ((c + (d + 500 - k) div 500) mod 6)) \<and>
     sole_writer (advance d w) i x \<and>
     clock (advance d w) < due (intervals (advance d w) ! i) \<and>
     due (intervals (advance d w) ! i) \<le> clock (advance d w) + 500"
  using assms
proof (induction d arbitrary: w k c)
  case 0
  then show ?case by simp
next
  case (Suc d)
  let ?iv = "intervals w ! i"
  let ?w' = "elapse w"
  let ?n = "(c + (Suc d + 500 - k) div 500) mod 6"
  note el = elapse_sole[OF Suc.prems(1)]
  have j: "jobs ?w' = jobs w" using elapse_frame[of w] by (simp add: static_def)
  have cl: "clock ?w' = clock w + 1" using elapse_frame[of w] by simp
  have adv: "advance (Suc d) w = advance d ?w'" by simp
  show ?case
  proof (cases "k = 1")
    case True
    with Suc.prems(2) have iv': "intervals ?w' ! i = fired ?iv"
      and tx': "textContent (indicators ?w' ! x) =
          label (jobs w ! owner ?iv) (ticker ?iv) (next_count (dotCount ?iv))"
      using el(1,2) by simp_all
    have d': "due (intervals ?w' ! i) = clock ?w' + 500"
      using iv' Suc.prems(2) True cl by (simp add: fired_def)
    have c': "dotCount (intervals ?w' ! i) = (c + 1) mod 6"
      using iv' Suc.prems(5,6) by (simp add: fired_def next_count_mod)
    have o': "owner (intervals ?w' ! i) = owner ?iv" "ticker (intervals ?w' ! i) = ticker ?iv"
      using iv' by (simp_all add: fired_def)
    have c6: "(c + 1) mod 6 \<le> 5" by simp
    have k5: "(1::nat) \<le> 500" "(500::nat) \<le> 500" by simp_all
    note IH = Suc.IH[OF el(3) d' k5 c' c6]
    have g: "(Suc d + 500 - k) div 500 = Suc (d div 500)" using True by simp
    have cnt: "((c + 1) mod 6 + (d + 500 - 500) div 500) mod 6 = ?n"
      unfolding g by (simp add: mod_add_left_eq)
    have small: "d < 500 \<Longrightarrow> ?n = (c + 1) mod 6" unfolding g by simp
    have nc: "next_count (dotCount ?iv) = (c + 1) mod 6"
      using Suc.prems(5,6) by (simp add: next_count_mod)
    from IH have A: "dotCount (intervals (advance d ?w') ! i) = ?n"
      and B: "textContent (indicators (advance d ?w') ! x) =
        (if d < 500 then textContent (indicators ?w' ! x)
         else label (jobs w ! owner ?iv) (ticker ?iv) ?n)"
      and C: "sole_writer (advance d ?w') i x"
        "clock (advance d ?w') < due (intervals (advance d ?w') ! i)"
        "due (intervals (advance d ?w') ! i) \<le> clock (advance d ?w') + 500"
      unfolding cnt j o' by blast+
    have B': "textContent (indicators (advance d ?w') ! x) =
        (if Suc d < k then textContent (indicators w ! x)
         else label (jobs w ! owner ?iv) (ticker ?iv) ?n)"
    proof (cases "d < 500")
      case True
      with B tx' nc small \<open>k = 1\<close> show ?thesis by simp
    next
      case False
      with B \<open>k = 1\<close> show ?thesis by simp
    qed
    from A B' C show ?thesis unfolding adv by blast
  next
    case False
    with Suc.prems(2,3) have nd: "due ?iv \<noteq> clock w + 1" by simp
    with el have iv': "intervals ?w' ! i = ?iv"
      and tx': "textContent (indicators ?w' ! x) = textContent (indicators w ! x)"
      by simp_all
    from False Suc.prems(3,4) have k1: "1 \<le> k - 1" "k - 1 \<le> 500" by simp_all
    have d': "due (intervals ?w' ! i) = clock ?w' + (k - 1)"
      using iv' Suc.prems(2,3) cl by simp
    have c': "dotCount (intervals ?w' ! i) = c" using iv' Suc.prems(5) by simp
    note IH = Suc.IH[OF el(3) d' k1 c' Suc.prems(6)]
    have a: "d + 500 - (k - 1) = Suc d + 500 - k" using Suc.prems(3,4) by simp
    have b: "(d < k - 1) = (Suc d < k)" using Suc.prems(3) by auto
    from IH show ?thesis unfolding adv a b j iv' tx' by blast
  qed
qed

lemma fire_interval_attached:
  "attached (indicators (fire_interval k w) ! x) = attached (indicators w ! x)"
  "timeouts (fire_interval k w) = timeouts w"
  "length (indicators (fire_interval k w)) = length (indicators w)"
  by (auto simp: fire_interval_def tick_def set_text_def Let_def nth_list_update)

lemma fold_fire_interval_attached:
  "attached (indicators (fold fire_interval ks w) ! x) = attached (indicators w ! x) \<and>
   timeouts (fold fire_interval ks w) = timeouts w \<and>
   length (indicators (fold fire_interval ks w)) = length (indicators w) \<and>
   clock (fold fire_interval ks w) = clock w"
  by (induction ks arbitrary: w) (simp_all add: fire_interval_attached)

lemma fire_timeout_attached:
  assumes "x < length (indicators w)"
  shows "attached (indicators (fire_timeout k w) ! x) =
     (attached (indicators w ! x) \<and>
      \<not> (pending (timeouts w ! k) \<and> fires (timeouts w ! k) = clock w \<and> removes (timeouts w ! k) = x))"
  using assms by (auto simp: fire_timeout_def remove_indicator_def Let_def nth_list_update)

lemma fire_timeout_timeouts:
  assumes "k < length (timeouts w)" "m < length (timeouts w)"
  shows "timeouts (fire_timeout k w) ! m =
     (if m = k \<and> pending (timeouts w ! k) \<and> fires (timeouts w ! k) = clock w
      then (timeouts w ! k)\<lparr>pending := False\<rparr> else timeouts w ! m)"
    and "length (timeouts (fire_timeout k w)) = length (timeouts w)"
    and "length (indicators (fire_timeout k w)) = length (indicators w)"
  using assms by (auto simp: fire_timeout_def remove_indicator_def Let_def nth_list_update)

lemma fold_fire_timeout_attached:
  assumes "distinct ks" "\<forall>k\<in>set ks. k < length (timeouts w)" "x < length (indicators w)"
  shows "attached (indicators (fold fire_timeout ks w) ! x) =
     (attached (indicators w ! x) \<and>
      \<not> (\<exists>k\<in>set ks. pending (timeouts w ! k) \<and> fires (timeouts w ! k) = clock w \<and>
            removes (timeouts w ! k) = x)) \<and>
     length (timeouts (fold fire_timeout ks w)) = length (timeouts w) \<and>
     (\<forall>m < length (timeouts w). timeouts (fold fire_timeout ks w) ! m =
        (if m \<in> set ks \<and> pending (timeouts w ! m) \<and> fires (timeouts w ! m) = clock w
         then (timeouts w ! m)\<lparr>pending := False\<rparr> else timeouts w ! m))"
  using assms
proof (induction ks arbitrary: w)
  case Nil
  then show ?case by simp
next
  case (Cons k ks)
  let ?w' = "fire_timeout k w"
  from Cons.prems have k: "k < length (timeouts w)" and nk: "k \<notin> set ks" and d: "distinct ks" by simp_all
  have l: "length (timeouts ?w') = length (timeouts w)" "length (indicators ?w') = length (indicators w)"
    "clock ?w' = clock w"
    using fire_timeout_timeouts(2,3)[OF k k] by simp_all
  have t: "\<And>m. m < length (timeouts w) \<Longrightarrow> timeouts ?w' ! m =
     (if m = k \<and> pending (timeouts w ! k) \<and> fires (timeouts w ! k) = clock w
      then (timeouts w ! k)\<lparr>pending := False\<rparr> else timeouts w ! m)"
    using fire_timeout_timeouts(1)[OF k] by simp
  have p: "\<forall>k\<in>set ks. k < length (timeouts ?w')" "x < length (indicators ?w')"
    using Cons.prems l by simp_all
  note IH = Cons.IH[OF d p]
  have same: "\<And>m. m \<in> set ks \<Longrightarrow> timeouts ?w' ! m = timeouts w ! m"
    using t nk Cons.prems(2) by auto
  have a: "attached (indicators ?w' ! x) =
     (attached (indicators w ! x) \<and>
      \<not> (pending (timeouts w ! k) \<and> fires (timeouts w ! k) = clock w \<and> removes (timeouts w ! k) = x))"
    using fire_timeout_attached[OF Cons.prems(3)] .
  have c1: "attached (indicators (fold fire_timeout (k # ks) w) ! x) =
     (attached (indicators w ! x) \<and>
      \<not> (\<exists>k\<in>set (k # ks). pending (timeouts w ! k) \<and> fires (timeouts w ! k) = clock w \<and>
            removes (timeouts w ! k) = x))"
    using IH a same l(3) by auto
  have c2: "length (timeouts (fold fire_timeout (k # ks) w)) = length (timeouts w)"
    using IH l by simp
  have c3: "\<forall>m < length (timeouts w). timeouts (fold fire_timeout (k # ks) w) ! m =
        (if m \<in> set (k # ks) \<and> pending (timeouts w ! m) \<and> fires (timeouts w ! m) = clock w
         then (timeouts w ! m)\<lparr>pending := False\<rparr> else timeouts w ! m)"
  proof (intro allI impI)
    fix m assume m: "m < length (timeouts w)"
    with IH l have e: "timeouts (fold fire_timeout ks ?w') ! m =
        (if m \<in> set ks \<and> pending (timeouts ?w' ! m) \<and> fires (timeouts ?w' ! m) = clock w
         then (timeouts ?w' ! m)\<lparr>pending := False\<rparr> else timeouts ?w' ! m)" by simp
    show "timeouts (fold fire_timeout (k # ks) w) ! m =
        (if m \<in> set (k # ks) \<and> pending (timeouts w ! m) \<and> fires (timeouts w ! m) = clock w
         then (timeouts w ! m)\<lparr>pending := False\<rparr> else timeouts w ! m)"
    proof (cases "m = k")
      case True
      with nk e t[OF m] show ?thesis by simp
    next
      case False
      with e t[OF m] show ?thesis by simp
    qed
  qed
  from c1 c2 c3 show ?case by blast
qed

lemma elapse_attached:
  assumes "x < length (indicators w)"
  shows "attached (indicators (elapse w) ! x) =
           (attached (indicators w ! x) \<and> \<not> removal_due w x (clock w) (clock w + 1))"
    and "length (timeouts (elapse w)) = length (timeouts w)"
    and "\<forall>m < length (timeouts w). timeouts (elapse w) ! m =
        (if pending (timeouts w ! m) \<and> fires (timeouts w ! m) = clock w + 1
         then (timeouts w ! m)\<lparr>pending := False\<rparr> else timeouts w ! m)"
proof -
  let ?w1 = "w\<lparr>clock := clock w + 1\<rparr>"
  let ?w2 = "fold fire_interval [0..<length (intervals ?w1)] ?w1"
  have e: "elapse w = fold fire_timeout [0..<length (timeouts ?w2)] ?w2"
    by (simp add: elapse_def Let_def)
  from fold_fire_interval_attached[of "[0..<length (intervals ?w1)]" ?w1 x]
  have w2: "attached (indicators ?w2 ! x) = attached (indicators w ! x)"
    "timeouts ?w2 = timeouts w" "length (indicators ?w2) = length (indicators w)"
    "clock ?w2 = clock w + 1" by simp_all
  have "distinct [0..<length (timeouts ?w2)]"
    "\<forall>k\<in>set [0..<length (timeouts ?w2)]. k < length (timeouts ?w2)"
    "x < length (indicators ?w2)" using assms w2 by simp_all
  note f = fold_fire_timeout_attached[OF this]
  have r: "removal_due w x (clock w) (clock w + 1) =
     (\<exists>k\<in>set [0..<length (timeouts w)]. pending (timeouts w ! k) \<and>
        fires (timeouts w ! k) = clock w + 1 \<and> removes (timeouts w ! k) = x)"
    by (auto simp: removal_due_def)
  from f show "attached (indicators (elapse w) ! x) =
           (attached (indicators w ! x) \<and> \<not> removal_due w x (clock w) (clock w + 1))"
    unfolding e r w2 by blast
  from f show "length (timeouts (elapse w)) = length (timeouts w)"
    unfolding e w2 by blast
  from f have "\<forall>m<length (timeouts w). timeouts (elapse w) ! m =
         (if m \<in> set [0..<length (timeouts w)] \<and> pending (timeouts w ! m) \<and>
             fires (timeouts w ! m) = clock w + 1
          then (timeouts w ! m)\<lparr>pending := False\<rparr> else timeouts w ! m)"
    unfolding e w2 by blast
  then show "\<forall>m < length (timeouts w). timeouts (elapse w) ! m =
        (if pending (timeouts w ! m) \<and> fires (timeouts w ! m) = clock w + 1
         then (timeouts w ! m)\<lparr>pending := False\<rparr> else timeouts w ! m)"
    by simp
qed

lemma removal_due_elapse:
  assumes "x < length (indicators w)"
  shows "removal_due (elapse w) x (clock w + 1) hi =
     (removal_due w x (clock w + 1) hi)"
proof -
  note e = elapse_attached(2,3)[OF assms]
  have "\<And>k. k < length (timeouts w) \<Longrightarrow>
     (pending (timeouts (elapse w) ! k) \<and> removes (timeouts (elapse w) ! k) = x \<and>
        clock w + 1 < fires (timeouts (elapse w) ! k) \<and> fires (timeouts (elapse w) ! k) \<le> hi) =
     (pending (timeouts w ! k) \<and> removes (timeouts w ! k) = x \<and>
        clock w + 1 < fires (timeouts w ! k) \<and> fires (timeouts w ! k) \<le> hi)"
    using e(2) by auto
  then show ?thesis unfolding removal_due_def e(1) by blast
qed

lemma removal_due_split:
  "removal_due w x lo (lo + Suc d) =
     (removal_due w x lo (lo + 1) \<or> removal_due w x (lo + 1) (lo + 1 + d))"
  unfolding removal_due_def
  by (rule iffI; clarsimp) (metis Suc_leI le_neq_implies_less not_less_eq_eq, auto)

lemma advance_attached:
  assumes "x < length (indicators w)"
  shows "attached (indicators (advance d w) ! x) =
     (attached (indicators w ! x) \<and> \<not> removal_due w x (clock w) (clock w + d))"
  using assms
proof (induction d arbitrary: w)
  case 0
  then show ?case by (auto simp: removal_due_def)
next
  case (Suc d)
  let ?w' = "elapse w"
  have l: "length (indicators ?w') = length (indicators w)" "clock ?w' = clock w + 1"
    using elapse_frame[of w] by (simp_all add: shape_def)
  with Suc.prems have x': "x < length (indicators ?w')" by simp
  from Suc.IH[OF x'] have "attached (indicators (advance (Suc d) w) ! x) =
     (attached (indicators ?w' ! x) \<and> \<not> removal_due ?w' x (clock w + 1) (clock w + 1 + d))"
    using l by simp
  also have "\<dots> = ((attached (indicators w ! x) \<and> \<not> removal_due w x (clock w) (clock w + 1)) \<and>
       \<not> removal_due w x (clock w + 1) (clock w + 1 + d))"
    using elapse_attached(1)[OF Suc.prems] removal_due_elapse[OF Suc.prems] by simp
  also have "\<dots> = (attached (indicators w ! x) \<and> \<not> removal_due w x (clock w) (clock w + Suc d))"
    using removal_due_split[of w x "clock w" d] by blast
  finally show ?case .
qed

lemma text_fold_no_writer:
  assumes "\<forall>k\<in>set ks. k < length (intervals w)" "\<forall>k < length (intervals w). \<not> writes_to w k x"
  shows "textContent (indicators (fold fire_interval ks w) ! x) = textContent (indicators w ! x)"
  using assms
proof (induction ks arbitrary: w)
  case Nil
  then show ?case by simp
next
  case (Cons k ks)
  let ?w' = "fire_interval k w"
  from Cons.prems have k: "k < length (intervals w)" by simp
  note fr = fire_interval_frame[OF k]
  have tx: "textContent (indicators ?w' ! x) = textContent (indicators w ! x)"
    using text_fire_interval[OF k, of x] Cons.prems(2) k by simp
  have "\<forall>k\<in>set ks. k < length (intervals ?w')" using Cons.prems(1) fr(5) by simp
  moreover have "\<forall>k < length (intervals ?w'). \<not> writes_to ?w' k x"
    using Cons.prems(2) fr(5) writes_to_cong[OF fr(2) fr(4)] by simp
  ultimately have "textContent (indicators (fold fire_interval ks ?w') ! x) =
      textContent (indicators ?w' ! x)" by (rule Cons.IH)
  with tx show ?case by simp
qed

lemma elapse_no_writer:
  assumes "\<forall>k < length (intervals w). \<not> writes_to w k x"
  shows "textContent (indicators (elapse w) ! x) = textContent (indicators w ! x)"
    and "\<forall>k < length (intervals (elapse w)). \<not> writes_to (elapse w) k x"
proof -
  let ?w1 = "w\<lparr>clock := clock w + 1\<rparr>"
  let ?w2 = "fold fire_interval [0..<length (intervals ?w1)] ?w1"
  have c: "shape ?w1 = shape w" "jobs ?w1 = jobs w" by (simp_all add: shape_def)
  have e: "elapse w = fold fire_timeout [0..<length (timeouts ?w2)] ?w2"
    by (simp add: elapse_def Let_def)
  have "\<forall>k\<in>set [0..<length (intervals ?w1)]. k < length (intervals ?w1)" by simp
  moreover have "\<forall>k < length (intervals ?w1). \<not> writes_to ?w1 k x"
    using assms writes_to_cong[OF c] by simp
  ultimately have "textContent (indicators ?w2 ! x) = textContent (indicators ?w1 ! x)"
    by (rule text_fold_no_writer)
  then show "textContent (indicators (elapse w) ! x) = textContent (indicators w ! x)"
    unfolding e using fold_fire_timeout_keeps[of "[0..<length (timeouts ?w2)]" ?w2 x] by simp
  from elapse_frame[of w] have s: "shape (elapse w) = shape w" "jobs (elapse w) = jobs w"
    by (simp_all add: static_def)
  from s(1) have "length (map (\<lambda>iv. (owner iv, ticker iv, active iv)) (intervals (elapse w))) =
      length (map (\<lambda>iv. (owner iv, ticker iv, active iv)) (intervals w))" by (simp add: shape_def)
  then have "length (intervals (elapse w)) = length (intervals w)" by simp
  with assms writes_to_cong[OF s] show "\<forall>k < length (intervals (elapse w)). \<not> writes_to (elapse w) k x"
    by simp
qed

lemma advance_no_writer:
  assumes "\<forall>k < length (intervals w). \<not> writes_to w k x"
  shows "textContent (indicators (advance d w) ! x) = textContent (indicators w ! x)"
  using assms
proof (induction d arbitrary: w)
  case 0
  show ?case by simp
next
  case (Suc d)
  from Suc.IH[OF elapse_no_writer(2)[OF Suc.prems]] elapse_no_writer(1)[OF Suc.prems]
  show ?case by simp
qed

lemma start_sole:
  assumes "well_formed w"
  shows "sole_writer (transcribeAudio_start a w) (length (intervals w)) (length (indicators w))"
proof -
  let ?ws = "transcribeAudio_start a w"
  have old: "\<not> writes_to ?ws k (length (indicators w))" if k: "k < length (intervals w)" for k
  proof -
    from k assms have o: "owner (intervals w ! k) < length (jobs w)"
      by (simp add: well_formed_def)
    with assms have "progressIndicator (jobs w ! owner (intervals w ! k)) < length (indicators w)"
      by (simp add: well_formed_def)
    with k o show ?thesis by (simp add: writes_to_def start_eq nth_append)
  qed
  have new: "writes_to ?ws (length (intervals w)) (length (indicators w))"
    by (simp add: writes_to_def start_eq)
  have len: "length (intervals ?ws) = Suc (length (intervals w))"
    "length (indicators w) < length (indicators ?ws)" by (simp_all add: start_eq)
  have "\<forall>k < length (intervals ?ws). k \<noteq> length (intervals w) \<longrightarrow>
      \<not> writes_to ?ws k (length (indicators w))"
  proof (intro allI impI)
    fix k assume "k < length (intervals ?ws)" "k \<noteq> length (intervals w)"
    with len(1) have "k < length (intervals w)" by simp
    then show "\<not> writes_to ?ws k (length (indicators w))" by (rule old)
  qed
  with new len(2) show ?thesis unfolding sole_writer_def by blast
qed

lemma start_interval:
  "dotCount (intervals (transcribeAudio_start a w) ! length (intervals w)) = 0"
  "due (intervals (transcribeAudio_start a w) ! length (intervals w)) =
     clock (transcribeAudio_start a w) + 500"
  "owner (intervals (transcribeAudio_start a w) ! length (intervals w)) = length (jobs w)"
  "ticker (intervals (transcribeAudio_start a w) ! length (intervals w)) = Transcribing"
  "textContent (indicators (transcribeAudio_start a w) ! length (indicators w)) =
     ''Transcribing: '' @ audioFileName (jobs (transcribeAudio_start a w) ! length (jobs w))"
  by (simp_all add: start_eq)

lemma label_start:
  assumes "well_formed w"
  shows "textContent (indicators (advance d (transcribeAudio_start a w)) ! length (indicators w)) =
     ''Transcribing: '' @ audioFileName (jobs (transcribeAudio_start a w) ! length (jobs w)) @
       replicate ((d div 500) mod 6) CHR ''.''"
proof -
  note s = start_sole[OF assms, of a]
  from advance_sole[OF s start_interval(2) _ _ start_interval(1), of d] show ?thesis
    by (simp add: start_interval)
qed

lemma removes_fire_timeout:
  "k < length (timeouts w) \<Longrightarrow> map removes (timeouts (fire_timeout k w)) = map removes (timeouts w)"
  by (simp add: fire_timeout_def Let_def remove_indicator_def map_update list_update_same_conv)

lemma removes_fold_fire_timeout:
  "\<forall>k\<in>set ks. k < length (timeouts w) \<Longrightarrow>
   map removes (timeouts (fold fire_timeout ks w)) = map removes (timeouts w)"
proof (induction ks arbitrary: w)
  case Nil
  show ?case by simp
next
  case (Cons k ks)
  from Cons.prems have k: "k < length (timeouts w)" by simp
  have "length (map removes (timeouts (fire_timeout k w))) = length (map removes (timeouts w))"
    using removes_fire_timeout[OF k] by simp
  then have "length (timeouts (fire_timeout k w)) = length (timeouts w)" by simp
  with Cons.prems have "\<forall>m\<in>set ks. m < length (timeouts (fire_timeout k w))" by simp
  from Cons.IH[OF this] removes_fire_timeout[OF k] show ?case by simp
qed

lemma removes_elapse: "map removes (timeouts (elapse w)) = map removes (timeouts w)"
proof -
  let ?w1 = "w\<lparr>clock := clock w + 1\<rparr>"
  let ?w2 = "fold fire_interval [0..<length (intervals ?w1)] ?w1"
  have e: "elapse w = fold fire_timeout [0..<length (timeouts ?w2)] ?w2"
    by (simp add: elapse_def Let_def)
  have t: "timeouts ?w2 = timeouts w"
    using fold_fire_interval_attached[of "[0..<length (intervals ?w1)]" ?w1 0] by simp
  have "\<forall>k\<in>set [0..<length (timeouts ?w2)]. k < length (timeouts ?w2)" by simp
  from removes_fold_fire_timeout[OF this] show ?thesis unfolding e t .
qed

lemma removes_advance: "map removes (timeouts (advance d w)) = map removes (timeouts w)"
  by (induction d arbitrary: w) (simp_all add: removes_elapse)

lemma removes_advance_nth:
  assumes "m < length (timeouts w)"
  shows "removes (timeouts (advance d w) ! m) = removes (timeouts w ! m)"
proof -
  have "map removes (timeouts (advance d w)) ! m = map removes (timeouts w) ! m"
    by (simp add: removes_advance)
  with assms show ?thesis by simp
qed

lemma no_timeout_fresh:
  assumes "well_formed w" "k < length (timeouts (advance d (transcribeAudio_start a w)))"
  shows "removes (timeouts (advance d (transcribeAudio_start a w)) ! k) \<noteq> length (indicators w)"
proof -
  let ?ws = "transcribeAudio_start a w"
  have t: "timeouts ?ws = timeouts w" by (simp add: start_eq)
  from assms(2) have k: "k < length (timeouts w)" by (simp add: t)
  with assms(1) have "removes (timeouts w ! k) < length (indicators w)" by (simp add: well_formed_def)
  with removes_advance_nth[of k ?ws d] k t show ?thesis by simp
qed

lemma no_removal_fresh:
  assumes "well_formed w"
  shows "\<not> removal_due (advance d (transcribeAudio_start a w)) (length (indicators w)) lo hi"
  using no_timeout_fresh[OF assms] unfolding removal_due_def by blast

section \<open>Whole runs: lemmas\<close>

text \<open>The world in which the response to the probe arrives.\<close>

lemma at_probe_facts:
  "jobs (at_probe a r w) = jobs (transcribeAudio_start a w)"
  "progressIndicator (jobs (at_probe a r w) ! length (jobs w)) = length (indicators w)"
  "dotInterval (jobs (at_probe a r w) ! length (jobs w)) = length (intervals w)"
  "length (indicators (at_probe a r w)) = Suc (length (indicators w))"
  "length (intervals (at_probe a r w)) = Suc (length (intervals w))"
  "length (timeouts (at_probe a r w)) = length (timeouts w)"
  "clock (at_probe a r w) = clock w + probe_ms r"
  "notifications (at_probe a r w) = notifications w"
  "requests (at_probe a r w) = requests w @ [Get (''http://'' @ settingWhisperIP (settings w))]"
  by (simp_all add: at_probe_def start_eq)

lemma at_probe_sole:
  assumes "well_formed w"
  shows "sole_writer (at_probe a r w) (length (intervals w)) (length (indicators w))"
    "attached (indicators (at_probe a r w) ! length (indicators w)) =
       (parentElement a (page w) \<noteq> None)"
    "\<forall>k < length (timeouts (at_probe a r w)).
       removes (timeouts (at_probe a r w) ! k) \<noteq> length (indicators w)"
proof -
  let ?ws = "transcribeAudio_start a w"
  note s = start_sole[OF assms, of a]
  from advance_sole[OF s start_interval(2) _ _ start_interval(1), of "probe_ms r"]
  show "sole_writer (at_probe a r w) (length (intervals w)) (length (indicators w))"
    by (simp add: at_probe_def)
  have x: "length (indicators w) < length (indicators ?ws)" by (simp add: start_eq)
  from advance_attached[OF x, of "probe_ms r"] no_removal_fresh[OF assms, of 0 a]
  show "attached (indicators (at_probe a r w) ! length (indicators w)) =
       (parentElement a (page w) \<noteq> None)"
    by (simp add: at_probe_def) (simp add: start_eq)
  from no_timeout_fresh[OF assms] show "\<forall>k < length (timeouts (at_probe a r w)).
       removes (timeouts (at_probe a r w) ! k) \<noteq> length (indicators w)"
    by (simp add: at_probe_def)
qed

lemma resume_returned:
  "jid < length (jobs w) \<Longrightarrow> stage (jobs w ! jid) = Returned \<Longrightarrow> resume jid ev w = w"
  by (cases ev) (simp_all add: resume_def)

lemma progressIndicator_update:
  assumes "\<And>j. progressIndicator (f j) = progressIndicator j"
  shows "progressIndicator (js[n := f (js ! n)] ! m) = progressIndicator (js ! m)"
proof (cases "m = n \<and> n < length js")
  case True
  then show ?thesis using assms by simp
next
  case False
  then show ?thesis by (cases "n < length js") (auto simp: list_update_beyond)
qed

lemma probe_fail_world:
  assumes "probe r = Rejected \<or> (\<exists>body. probe r = Response False body)"
  shows "transcribeAudio a r w =
    (at_probe a r w)\<lparr>jobs := (jobs (at_probe a r w))[length (jobs w) :=
         (jobs (at_probe a r w) ! length (jobs w))\<lparr>stage := Returned\<rparr>],
      indicators := (indicators (at_probe a r w))[length (indicators w) :=
         (indicators (at_probe a r w) ! length (indicators w))
           \<lparr>textContent := ''Failed: Server Unavailable''\<rparr>],
      intervals := (intervals (at_probe a r w))[length (intervals w) :=
         (intervals (at_probe a r w) ! length (intervals w))\<lparr>active := False\<rparr>],
      timeouts := timeouts (at_probe a r w) @
         [\<lparr>fires = clock (at_probe a r w) + 3000, removes = length (indicators w), pending = True\<rparr>,
          \<lparr>fires = clock (at_probe a r w) + 3000, removes = length (indicators w), pending = True\<rparr>],
      notifications := notifications (at_probe a r w) @ [(''Whisper Server Unavailable'',
         ''The local Whisper server is not available. Please ensure it is running on port 9000.'')],
      console := console (at_probe a r w) @
        (if probe r = Rejected then [(''Whisper server is not available:'', FetchFailed)] else [])\<rparr>"
  unfolding run_probe_fail[OF assms] resume_probe_fail[OF waiting_at_probe assms]
    at_probe_facts(2,3) ..



lemma finished_holds:
  assumes "holds_job w Y"
  shows "stage (jobs (finished (length (jobs w)) Y) ! length (jobs w)) = Returned"
    "length (jobs (finished (length (jobs w)) Y)) = Suc (length (jobs w))"
    "textContent (indicators (finished (length (jobs w)) Y) ! length (indicators w)) =
       ''Transcription Complete'' \<or>
     textContent (indicators (finished (length (jobs w)) Y) ! length (indicators w)) =
       ''Failed: Transcription Error''"
  using assms by (auto simp: holds_job_def finished_def failed_def split: sum.splits prod.splits)



lemma intervals_at_audio:
  assumes "probe r = Response True b"
  shows "length (intervals (at_audio a r w)) = Suc (length (intervals w))"
  using waiting_at_probe[of a r w] assms
  by (simp add: at_audio_def resume_probe_ok at_probe_facts)

lemma intervals_at_whisper:
  assumes "probe r = Response True b" "audio r = Response ok (Some bytes)"
  shows "length (intervals (at_whisper a r w)) = Suc (length (intervals w))"
  using waiting_at_audio[OF assms(1), of a w] intervals_at_audio[OF assms(1), of a w] assms(2)
  by (simp add: at_whisper_def resume_audio_ok)

lemma intervals_at_ollama:
  assumes "probe r = Response True b" "audio r = Response ok (Some bytes)"
    "fetchTranscription_result (whisper r) = Inr t" "settingOllamaToggle (settings w)"
  shows "length (intervals (at_ollama a r w)) = Suc (Suc (length (intervals w)))"
    "active (intervals (at_ollama a r w) ! Suc (length (intervals w)))"
    "owner (intervals (at_ollama a r w) ! Suc (length (intervals w))) = length (jobs w)"
    "ticker (intervals (at_ollama a r w) ! Suc (length (intervals w))) = Processing"
proof -
  let ?X = "at_whisper a r w"
  let ?Z = "resume (length (jobs w)) (WhisperSettled (whisper r)) ?X"
  have s: "settingOllamaToggle (settings ?X)"
    using assms(4) by (simp add: settings_at_whisper[OF assms(1,2)])
  note l = intervals_at_whisper[OF assms(1,2), of a w]
  have z: "intervals ?Z = (intervals ?X)[dotInterval (jobs ?X ! length (jobs w)) :=
         (intervals ?X ! dotInterval (jobs ?X ! length (jobs w)))\<lparr>active := False\<rparr>] @
         [\<lparr>owner = length (jobs w), ticker = Processing, dotCount = 0, due = clock ?X + 500,
           active = True\<rparr>]"
    by (simp add: resume_whisper_ollama[OF waiting_at_whisper[OF assms(1,2)] assms(3) s])
  have zl: "length (intervals ?Z) = Suc (Suc (length (intervals w)))"
    and zn: "intervals ?Z ! Suc (length (intervals w)) =
      \<lparr>owner = length (jobs w), ticker = Processing, dotCount = 0, due = clock ?X + 500,
           active = True\<rparr>"
    using l unfolding z by (simp_all add: nth_append)
  have i: "Suc (length (intervals w)) < length (intervals ?Z)" using zl by simp
  show "length (intervals (at_ollama a r w)) = Suc (Suc (length (intervals w)))"
    by (simp add: at_ollama_def zl)
  from advance_interval_shape[OF i, of "ollama_ms r"] zn
  show "active (intervals (at_ollama a r w) ! Suc (length (intervals w)))"
    "owner (intervals (at_ollama a r w) ! Suc (length (intervals w))) = length (jobs w)"
    "ticker (intervals (at_ollama a r w) ! Suc (length (intervals w))) = Processing"
    by (simp_all add: at_ollama_def)
qed

lemma intervals_finished:
  "intervals (finished jid Y) =
     (intervals Y)[dotInterval (jobs Y ! jid) := (intervals Y ! dotInterval (jobs Y ! jid))\<lparr>active := False\<rparr>]"
  by (simp add: finished_def failed_def split: sum.splits prod.splits)

lemma processing_interval_leaks:
  assumes "probe r = Response True b" "audio r = Response ok (Some bytes)"
    "fetchTranscription_result (whisper r) = Inr t" "settingOllamaToggle (settings w)"
  shows "stage (jobs (transcribeAudio a r w) ! length (jobs w)) = Returned \<and>
    length (intervals (transcribeAudio a r w)) = length (intervals w) + 2 \<and>
    \<not> active (intervals (transcribeAudio a r w) ! length (intervals w)) \<and>
    active (intervals (transcribeAudio a r w) ! Suc (length (intervals w))) \<and>
    owner (intervals (transcribeAudio a r w) ! Suc (length (intervals w))) = length (jobs w) \<and>
    ticker (intervals (transcribeAudio a r w) ! Suc (length (intervals w))) = Processing"
proof -
  let ?jid = "length (jobs w)"
  let ?X = "at_ollama a r w"
  let ?Y = "(snd (processWithOllama_result (ollama r) ?X))
            \<lparr>jobs := (jobs ?X)[?jid :=
               (jobs ?X ! ?jid)\<lparr>finalText := fst (processWithOllama_result (ollama r) ?X)\<rparr>]\<rparr>"
  have pw: "snd (processWithOllama_result (ollama r) ?X) = ?X \<or>
     (\<exists>e. snd (processWithOllama_result (ollama r) ?X) =
        console_error ''Error processing with Ollama:'' e ?X)"
    by (auto simp: processWithOllama_result_def split: sum.splits)
  have sj: "same_job a w ?X" using assms by (rule same_job_at_ollama)
  have hj: "holds_job w ?Y" using pw sj by (auto simp: same_job_def holds_job_def console_error_def)
  have run: "transcribeAudio a r w = finished ?jid ?Y"
    using run_ollama[OF assms, of a] resume_ollama[OF waiting_at_ollama[OF assms, of a], of "ollama r"]
    by simp
  have iY: "intervals ?Y = intervals ?X" using pw by (auto simp: console_error_def)
  have dY: "dotInterval (jobs ?Y ! ?jid) = length (intervals w)"
    using sj by (simp add: same_job_def)
  note I = intervals_at_ollama[OF assms, of a]
  have "intervals (transcribeAudio a r w) =
     (intervals ?X)[length (intervals w) := (intervals ?X ! length (intervals w))\<lparr>active := False\<rparr>]"
    unfolding run intervals_finished iY dY ..
  with I finished_holds(1)[OF hj] run show ?thesis by simp
qed

lemma demo_world_simps:
  "jobs demo_world = []" "indicators demo_world = []" "intervals demo_world = []"
  "timeouts demo_world = []" "requests demo_world = []" "notifications demo_world = []"
  "page demo_world = demo_page" "settings demo_world = DEFAULT_SETTINGS" "clock demo_world = 0"
  by (simp_all add: demo_world_def)

lemma well_formed_demo: "well_formed demo_world"
  by (simp add: well_formed_def demo_world_simps)

lemma demo_parent: "parentElement [0, 0] demo_page \<noteq> None"
  by (simp add: parentElement_def demo_page_def)


lemma dots:
  "replicate 5 c = [c, c, c, c, c]"
  by (simp add: numeral_eq_Suc)

lemma writes_to_same:
  assumes "length (intervals w') = length (intervals w)"
    and "\<And>k. k < length (intervals w) \<Longrightarrow>
          active (intervals w' ! k) = active (intervals w ! k) \<and>
          owner (intervals w' ! k) = owner (intervals w ! k)"
    and "length (jobs w') = length (jobs w)"
    and "\<And>m. m < length (jobs w) \<Longrightarrow>
          progressIndicator (jobs w' ! m) = progressIndicator (jobs w ! m)"
  shows "writes_to w' k x = writes_to w k x"
  using assms by (auto simp: writes_to_def)

lemma sole_writer_same:
  assumes "length (intervals w') = length (intervals w)"
    and "\<And>k. k < length (intervals w) \<Longrightarrow>
          active (intervals w' ! k) = active (intervals w ! k) \<and>
          owner (intervals w' ! k) = owner (intervals w ! k)"
    and "length (jobs w') = length (jobs w)"
    and "\<And>m. m < length (jobs w) \<Longrightarrow>
          progressIndicator (jobs w' ! m) = progressIndicator (jobs w ! m)"
    and "length (indicators w') = length (indicators w)"
  shows "sole_writer w' i x = sole_writer w i x"
proof -
  have "writes_to w' k x = writes_to w k x" for k
    using assms(1-4) by (rule writes_to_same)
  then show ?thesis by (simp add: sole_writer_def assms(1,5))
qed

lemma advance_armed:
  assumes "sole_writer w i x" "armed w i"
  shows "sole_writer (advance d w) i x" "armed (advance d w) i"
    "500 \<le> d \<Longrightarrow> \<exists>n \<le> 5. textContent (indicators (advance d w) ! x) =
        label (jobs w ! owner (intervals w ! i)) (ticker (intervals w ! i)) n"
proof -
  let ?k = "due (intervals w ! i) - clock w"
  from assms(2) have k: "due (intervals w ! i) = clock w + ?k" "1 \<le> ?k" "?k \<le> 500"
    and c: "dotCount (intervals w ! i) \<le> 5"
    by (auto simp: armed_def)
  note a = advance_sole[OF assms(1) k refl c, of d]
  from a show "sole_writer (advance d w) i x" by blast
  from a have "dotCount (intervals (advance d w) ! i) \<le> 5" by simp
  with a show "armed (advance d w) i" by (simp add: armed_def)
  assume "500 \<le> d"
  with k(3) have "\<not> d < ?k" by simp
  with a have "textContent (indicators (advance d w) ! x) =
        label (jobs w ! owner (intervals w ! i)) (ticker (intervals w ! i))
          ((dotCount (intervals w ! i) + (d + 500 - ?k) div 500) mod 6)"
    by simp
  moreover have "(dotCount (intervals w ! i) + (d + 500 - ?k) div 500) mod 6 \<le> 5" by simp
  ultimately show "\<exists>n \<le> 5. textContent (indicators (advance d w) ! x) =
        label (jobs w ! owner (intervals w ! i)) (ticker (intervals w ! i)) n" by blast
qed

lemma sole_writer_weaken:
  assumes "sole_writer w i x"
    and "length (intervals w') = length (intervals w)"
    and "\<And>k. k < length (intervals w) \<Longrightarrow>
          owner (intervals w' ! k) = owner (intervals w ! k) \<and>
          (active (intervals w' ! k) \<longrightarrow> active (intervals w ! k))"
    and "active (intervals w' ! i)"
    and "length (jobs w') = length (jobs w)"
    and "\<And>m. m < length (jobs w) \<Longrightarrow>
          progressIndicator (jobs w' ! m) = progressIndicator (jobs w ! m)"
    and "length (indicators w') = length (indicators w)"
  shows "sole_writer w' i x"
proof -
  from assms(1) have i: "i < length (intervals w)" "writes_to w i x" "x < length (indicators w)"
    and o: "\<And>k. k < length (intervals w) \<Longrightarrow> k \<noteq> i \<Longrightarrow> \<not> writes_to w k x"
    by (auto simp: sole_writer_def writes_to_def)
  have "writes_to w' i x"
    using i assms(2,3,4,5,6) by (auto simp: writes_to_def)
  moreover have "\<not> writes_to w' k x" if "k < length (intervals w')" "k \<noteq> i" for k
  proof
    assume a: "writes_to w' k x"
    from that assms(2) have k: "k < length (intervals w)" by simp
    with a assms(3,5,6) have "writes_to w k x" by (auto simp: writes_to_def)
    with o[OF k that(2)] show False by simp
  qed
  ultimately show ?thesis using i(3) assms(7) by (simp add: sole_writer_def)
qed

lemma armed_same:
  "clock w' = clock w \<Longrightarrow> intervals w' ! i = intervals w ! i \<Longrightarrow> armed w' i = armed w i"
  by (simp add: armed_def)

lemma stage_update_progressIndicator:
  "progressIndicator (js[n := (js ! n)\<lparr>stage := s\<rparr>] ! m) = progressIndicator (js ! m)"
  using progressIndicator_update[of "\<lambda>j. j\<lparr>stage := s\<rparr>" js n m] by simp

text \<open>The interval of the transcription stage, up to the response of the recognition
  endpoint.\<close>

lemma animating_at_probe:
  assumes "well_formed w"
  shows "sole_writer (at_probe a r w) (length (intervals w)) (length (indicators w))"
    "armed (at_probe a r w) (length (intervals w))"
proof -
  let ?ws = "transcribeAudio_start a w"
  have "armed ?ws (length (intervals w))" by (simp add: armed_def start_eq)
  from advance_armed(1,2)[OF start_sole[OF assms] this]
  show "sole_writer (at_probe a r w) (length (intervals w)) (length (indicators w))"
    "armed (at_probe a r w) (length (intervals w))"
    by (simp_all add: at_probe_def)
qed

lemma animating_at_audio:
  assumes "well_formed w" "probe r = Response True b"
  shows "sole_writer (at_audio a r w) (length (intervals w)) (length (indicators w))"
    "armed (at_audio a r w) (length (intervals w))"
proof -
  let ?X = "at_probe a r w"
  let ?Z = "resume (length (jobs w)) (ProbeSettled (probe r)) ?X"
  note A = animating_at_probe[OF assms(1), of a r]
  have z: "?Z = ?X\<lparr>jobs := (jobs ?X)[length (jobs w) := (jobs ?X ! length (jobs w))\<lparr>stage := AwaitAudio\<rparr>],
      notifications := notifications ?X @
         [(''Transcription Request'', ''Transcribing: '' @ audioFileName (jobs ?X ! length (jobs w)))],
      requests := requests ?X @ [Get (audioUrl (jobs ?X ! length (jobs w)))]\<rparr>"
    using resume_probe_ok[OF waiting_at_probe[of a r w], of b] assms(2) by simp
  have s: "sole_writer ?Z (length (intervals w)) (length (indicators w))"
    using A(1) by (rule sole_writer_weaken)
      (insert A(1), simp_all add: z stage_update_progressIndicator sole_writer_def writes_to_def)
  have ar: "armed ?Z (length (intervals w))" using A(2) by (simp add: z armed_def)
  from advance_armed(1,2)[OF s ar]
  show "sole_writer (at_audio a r w) (length (intervals w)) (length (indicators w))"
    "armed (at_audio a r w) (length (intervals w))"
    by (simp_all add: at_audio_def)
qed

lemma animating_at_whisper:
  assumes "well_formed w" "probe r = Response True b" "audio r = Response ok (Some bytes)"
  shows "sole_writer (at_whisper a r w) (length (intervals w)) (length (indicators w))"
    "armed (at_whisper a r w) (length (intervals w))"
proof -
  let ?X = "at_audio a r w"
  let ?Z = "resume (length (jobs w)) (AudioSettled (audio r)) ?X"
  note A = animating_at_audio[OF assms(1,2), of a]
  have z: "?Z = ?X\<lparr>jobs := (jobs ?X)[length (jobs w) := (jobs ?X ! length (jobs w))\<lparr>stage := AwaitWhisper\<rparr>],
      requests := requests ?X @
        [PostForm (''http://'' @ settingWhisperIP (settings ?X) @ ''/asr?output=json'')
           ''audio_file'' (audioFileName (jobs ?X ! length (jobs w))) ''audio/mp3'' bytes]\<rparr>"
    using resume_audio_ok[OF waiting_at_audio[OF assms(2), of a w], of ok bytes] assms(3) by simp
  have s: "sole_writer ?Z (length (intervals w)) (length (indicators w))"
    using A(1) by (rule sole_writer_weaken)
      (insert A(1), simp_all add: z stage_update_progressIndicator sole_writer_def writes_to_def)
  have ar: "armed ?Z (length (intervals w))" using A(2) by (simp add: z armed_def)
  from advance_armed(1,2)[OF s ar]
  show "sole_writer (at_whisper a r w) (length (intervals w)) (length (indicators w))"
    "armed (at_whisper a r w) (length (intervals w))"
    by (simp_all add: at_whisper_def)
qed

lemma animating_at_ollama:
  assumes "well_formed w" "probe r = Response True b" "audio r = Response ok (Some bytes)"
    "fetchTranscription_result (whisper r) = Inr t" "settingOllamaToggle (settings w)"
  shows "sole_writer (at_ollama a r w) (Suc (length (intervals w))) (length (indicators w))"
    "armed (at_ollama a r w) (Suc (length (intervals w)))"
proof -
  let ?jid = "length (jobs w)" and ?i = "length (intervals w)" and ?x = "length (indicators w)"
  let ?X = "at_whisper a r w"
  let ?Z = "resume ?jid (WhisperSettled (whisper r)) ?X"
  note A = animating_at_whisper[OF assms(1,2,3), of a]
  note sj = same_job_at_whisper[OF assms(2,3), of a w]
  note il = intervals_at_whisper[OF assms(2,3), of a w]
  have s: "settingOllamaToggle (settings ?X)"
    using assms(5) by (simp add: settings_at_whisper[OF assms(2,3)])
  from sj have d: "dotInterval (jobs ?X ! ?jid) = ?i" "progressIndicator (jobs ?X ! ?jid) = ?x"
    "?jid < length (jobs ?X)" "length (indicators ?X) = Suc ?x"
    by (simp_all add: same_job_def)
  have z: "intervals ?Z = (intervals ?X)[?i := (intervals ?X ! ?i)\<lparr>active := False\<rparr>] @
         [\<lparr>owner = ?jid, ticker = Processing, dotCount = 0, due = clock ?X + 500, active = True\<rparr>]"
    "jobs ?Z = (jobs ?X)[?jid := (jobs ?X ! ?jid)\<lparr>transcription := t, finalText := t, stage := AwaitOllama\<rparr>]"
    "indicators ?Z = indicators ?X" "clock ?Z = clock ?X"
    by (simp_all add: resume_whisper_ollama[OF waiting_at_whisper[OF assms(2,3)] assms(4) s] d)
  have pj: "progressIndicator (jobs ?Z ! m) = progressIndicator (jobs ?X ! m)" for m
    unfolding z
    using progressIndicator_update[of "\<lambda>j. j\<lparr>transcription := t, finalText := t, stage := AwaitOllama\<rparr>"
        "jobs ?X" ?jid m] by simp
  have new: "writes_to ?Z (Suc ?i) ?x"
    using d il by (simp add: writes_to_def z nth_append)
  have old: "\<not> writes_to ?Z k ?x" if k: "k < Suc ?i" for k
  proof (cases "k = ?i")
    case True
    with il show ?thesis by (simp add: writes_to_def z nth_append)
  next
    case False
    with k have kl: "k < ?i" by simp
    with A(1) il have "\<not> writes_to ?X k ?x" by (simp add: sole_writer_def)
    moreover have "writes_to ?Z k ?x = writes_to ?X k ?x"
      using kl il d(3) by (simp add: writes_to_def pj) (simp add: z nth_append)
    ultimately show ?thesis by simp
  qed
  have lz: "length (intervals ?Z) = Suc (Suc ?i)" using il by (simp add: z)
  have "\<forall>k < length (intervals ?Z). k \<noteq> Suc ?i \<longrightarrow> \<not> writes_to ?Z k ?x"
  proof (intro allI impI)
    fix k assume "k < length (intervals ?Z)" "k \<noteq> Suc ?i"
    with lz have "k < Suc ?i" by simp
    then show "\<not> writes_to ?Z k ?x" by (rule old)
  qed
  with new d(4) have sz: "sole_writer ?Z (Suc ?i) ?x" by (simp add: sole_writer_def z)
  have az: "armed ?Z (Suc ?i)" using il by (simp add: armed_def z nth_append)
  from advance_armed(1,2)[OF sz az]
  show "sole_writer (at_ollama a r w) (Suc ?i) ?x" "armed (at_ollama a r w) (Suc ?i)"
    by (simp_all add: at_ollama_def)
qed

lemma completion_text_is_overwritten:
  assumes "well_formed w" "probe r = Response True b" "audio r = Response ok (Some bytes)"
    "fetchTranscription_result (whisper r) = Inr t" "settingOllamaToggle (settings w)"
    "500 \<le> d"
  shows "\<exists>n \<le> 5. textContent (indicators (advance d (transcribeAudio a r w)) ! length (indicators w)) =
     label (jobs (transcribeAudio a r w) ! length (jobs w)) Processing n"
proof -
  let ?jid = "length (jobs w)" and ?i = "length (intervals w)" and ?x = "length (indicators w)"
  let ?X = "at_ollama a r w"
  let ?w' = "transcribeAudio a r w"
  let ?Y = "(snd (processWithOllama_result (ollama r) ?X))
            \<lparr>jobs := (jobs ?X)[?jid :=
               (jobs ?X ! ?jid)\<lparr>finalText := fst (processWithOllama_result (ollama r) ?X)\<rparr>]\<rparr>"
  note A = animating_at_ollama[OF assms(1-5), of a]
  note L = processing_interval_leaks[OF assms(2-5), of a]
  note I = intervals_at_ollama[OF assms(2-5), of a]
  have sj: "same_job a w ?X" using assms(2-5) by (rule same_job_at_ollama)
  have pw: "snd (processWithOllama_result (ollama r) ?X) = ?X \<or>
     (\<exists>e. snd (processWithOllama_result (ollama r) ?X) =
        console_error ''Error processing with Ollama:'' e ?X)"
    by (auto simp: processWithOllama_result_def split: sum.splits)
  have run: "?w' = finished ?jid ?Y"
    using run_ollama[OF assms(2-5), of a]
      resume_ollama[OF waiting_at_ollama[OF assms(2-5), of a], of "ollama r"]
    by simp
  have Y: "intervals ?Y = intervals ?X" "clock ?Y = clock ?X" "length (indicators ?Y) = length (indicators ?X)"
    "length (jobs ?Y) = length (jobs ?X)"
    using pw by (auto simp: console_error_def)
  have dY: "dotInterval (jobs ?Y ! ?jid) = ?i" using sj by (simp add: same_job_def)
  have iw: "intervals ?w' = (intervals ?X)[?i := (intervals ?X ! ?i)\<lparr>active := False\<rparr>]"
    unfolding run intervals_finished Y dY ..
  have cw: "clock ?w' = clock ?X" "length (indicators ?w') = length (indicators ?X)"
    "length (jobs ?w') = length (jobs ?X)"
    unfolding run using Y(2,3,4)
    by (simp_all add: finished_def failed_def split: sum.splits prod.splits)
  have pj: "progressIndicator (jobs ?w' ! m) = progressIndicator (jobs ?X ! m)" for m
  proof -
    have 1: "progressIndicator (jobs ?Y ! m) = progressIndicator (jobs ?X ! m)"
      using progressIndicator_update[of "\<lambda>j. j\<lparr>finalText := fst (processWithOllama_result (ollama r) ?X)\<rparr>"
        "jobs ?X" ?jid m] by simp
    have "jobs ?w' = (jobs ?Y)[?jid := (jobs ?Y ! ?jid)\<lparr>stage := Returned\<rparr>]"
      unfolding run by (simp add: finished_def failed_def split: sum.splits prod.splits)
    then have "progressIndicator (jobs ?w' ! m) = progressIndicator (jobs ?Y ! m)"
      by (simp only: stage_update_progressIndicator)
    with 1 show ?thesis by simp
  qed
  have s: "sole_writer ?w' (Suc ?i) ?x"
    using A(1)
  proof (rule sole_writer_weaken)
    show "length (intervals ?w') = length (intervals ?X)" by (simp add: iw)
    show "owner (intervals ?w' ! k) = owner (intervals ?X ! k) \<and>
       (active (intervals ?w' ! k) \<longrightarrow> active (intervals ?X ! k))" if "k < length (intervals ?X)" for k
      using that by (cases "k = ?i") (simp_all add: iw)
    show "active (intervals ?w' ! Suc ?i)" using L by simp
    show "length (jobs ?w') = length (jobs ?X)" by (rule cw)
    show "progressIndicator (jobs ?w' ! m) = progressIndicator (jobs ?X ! m)" for m by (rule pj)
    show "length (indicators ?w') = length (indicators ?X)" by (rule cw)
  qed
  have "intervals ?w' ! Suc ?i = intervals ?X ! Suc ?i" by (simp add: iw)
  with A(2) cw(1) have ar: "armed ?w' (Suc ?i)" by (simp add: armed_def)
  from advance_armed(3)[OF s ar assms(6)] L show ?thesis by simp
qed

lemma label_processing_not_complete: "label j Processing n \<noteq> ''Transcription Complete''"
  by simp

lemma run_ollama_text:
  assumes "probe r = Response True b" "audio r = Response ok (Some bytes)"
    "fetchTranscription_result (whisper r) = Inr t" "settingOllamaToggle (settings w)"
    "processWithOllama_try (ollama r) = Inr (JStr s)"
  shows "textContent (indicators (transcribeAudio a r w) ! length (indicators w)) =
           ''Transcription Complete''"
    "finalText (jobs (transcribeAudio a r w) ! length (jobs w)) = JStr s"
proof -
  let ?jid = "length (jobs w)" and ?x = "length (indicators w)"
  let ?X = "at_ollama a r w"
  have pr: "processWithOllama_result (ollama r) ?X = (JStr s, ?X)"
    using assms(5) by (simp add: processWithOllama_result_def)
  let ?Y = "?X\<lparr>jobs := (jobs ?X)[?jid := (jobs ?X ! ?jid)\<lparr>finalText := JStr s\<rparr>]\<rparr>"
  have run: "transcribeAudio a r w = finished ?jid ?Y"
    using run_ollama[OF assms(1-4), of a]
      resume_ollama[OF waiting_at_ollama[OF assms(1-4), of a], of "ollama r"] pr
    by simp
  have sj: "same_job a w ?X" using assms(1-4) by (rule same_job_at_ollama)
  then have Y: "?jid < length (jobs ?Y)" "progressIndicator (jobs ?Y ! ?jid) = ?x"
    "?x < length (indicators ?Y)" "finalText (jobs ?Y ! ?jid) = JStr s"
    by (simp_all add: same_job_def)
  obtain ed ns where i: "insertion (audioElement (jobs ?Y ! ?jid)) (JStr s) ?Y = Inr (ed, ns)"
    using insertion_string by blast
  show "textContent (indicators (transcribeAudio a r w) ! ?x) = ''Transcription Complete''"
    "finalText (jobs (transcribeAudio a r w) ! ?jid) = JStr s"
    unfolding run finished_def Y(2,4) i using Y(1,3,4) by simp_all
qed

section \<open>The editor and the insertion: lemmas\<close>





lemma the_lines_ne [simp]: "the_lines ed \<noteq> []"
  by (simp add: the_lines_def)

lemma butlast_last_tl: "length xs \<noteq> 1 \<Longrightarrow> xs \<noteq> [] \<Longrightarrow> butlast (tl xs) @ [last xs] = tl xs"
  by (cases xs) (auto simp: neq_Nil_conv)
















section \<open>The controls that a scan attaches: lemmas\<close>

lemma marker_up: "subtree n r = Some m \<Longrightarrow> has_marker m \<Longrightarrow> has_marker n"
proof (induction r arbitrary: n)
  case Nil
  then show ?case by simp
next
  case (Cons i r)
  from Cons.prems(1) have i: "i < length (kids n)" and s: "subtree (kids n ! i) r = Some m"
    by (auto split: if_splits)
  from Cons.IH[OF s Cons.prems(2)] have "has_marker (kids n ! i)" .
  with i show ?case by (subst has_marker_iff) (auto intro: bexI[of _ "kids n ! i"])
qed

lemma subtree_appendChild_elsewhere:
  "subtree doc pa = Some n \<Longrightarrow> \<not> prefix pa pp \<Longrightarrow>
   subtree (modify pp (appendChild b) doc) pa = Some n"
proof (induction pp arbitrary: doc pa)
  case Nil
  then obtain i r where pa: "pa = i # r" by (cases pa) auto
  with Nil.prems(1) show ?case
    by (cases doc) (auto simp: appendChild_def set_kids_def nth_append split: if_splits)
next
  case (Cons j pp)
  from Cons.prems(2) obtain i r where pa: "pa = i # r" by (cases pa) auto
  from Cons.prems(1) pa have i: "i < length (kids doc)" and s: "subtree (kids doc ! i) r = Some n"
    by (auto split: if_splits)
  show ?case
  proof (cases "j < length (kids doc)")
    case False
    then show ?thesis using Cons.prems(1) by simp
  next
    case j: True
    show ?thesis
    proof (cases "i = j")
      case True
      with Cons.prems(2) pa have "\<not> prefix r pp" by simp
      from Cons.IH[OF s this] show ?thesis using pa True i by (simp add: set_kids_def)
    next
      case False
      then show ?thesis using pa i j s by (simp add: set_kids_def)
    qed
  qed
qed

lemma addTranscribeButton_elsewhere:
  assumes "subtree doc pa = Some n" and "\<not> prefix pa (butlast a')"
  shows "subtree (addTranscribeButton a' doc) pa = Some n"
  using assms subtree_appendChild_elsewhere[OF assms, of "transcribe_button a'"]
  by (auto simp: addTranscribeButton_def parentElement_def split: option.splits)

lemma fold_elsewhere:
  "subtree doc pa = Some n \<Longrightarrow> \<forall>a'\<in>set xs. \<not> prefix pa (butlast a') \<Longrightarrow>
   subtree (fold addTranscribeButton xs doc) pa = Some n"
  by (induction xs arbitrary: doc) (simp_all add: addTranscribeButton_elsewhere)

lemma controls_of_fold_other:
  "a \<notin> set xs \<Longrightarrow> controls_of a (fold addTranscribeButton xs doc) = controls_of a doc"
  by (induction xs arbitrary: doc) (auto simp: controls_of_add)

lemma bound_iff:
  "bound a doc = (a \<noteq> [] \<and> (\<exists>par. subtree doc (butlast a) = Some par \<and> has_marker par))"
  by (auto simp: bound_def parentElement_def split: option.splits)

lemma bound_fold_iff:
  assumes "parentElement a doc \<noteq> None" and "\<forall>a'\<in>set xs. parentElement a' doc \<noteq> None"
  shows "bound a (fold addTranscribeButton xs doc) =
     (bound a doc \<or> (\<exists>a'\<in>set xs. prefix (butlast a) (butlast a')))"
proof (cases "bound a doc \<or> (\<exists>a'\<in>set xs. prefix (butlast a) (butlast a'))")
  case False
  from assms(1) obtain par where a: "a \<noteq> []" and st: "subtree doc (butlast a) = Some par"
    by (auto simp: parentElement_def split: if_splits option.splits)
  from False have "\<forall>a'\<in>set xs. \<not> prefix (butlast a) (butlast a')" by blast
  from fold_elsewhere[OF st this] st False a show ?thesis by (simp add: bound_iff)
next
  case True
  let ?d = "fold addTranscribeButton xs doc"
  have "bound a ?d"
  proof (cases "bound a doc")
    case True
    then show ?thesis using grows_fold by (rule bound_grows)
  next
    case False
    with True obtain a' where a': "a' \<in> set xs" and p: "prefix (butlast a) (butlast a')" by blast
    from bound_fold[OF assms(2)] a' have "bound a' ?d" by blast
    then obtain par' where st': "subtree ?d (butlast a') = Some par'" and m: "has_marker par'"
      by (auto simp: bound_iff)
    from p obtain r where r: "butlast a' = butlast a @ r" by (auto simp: prefix_def)
    from parent_grows[OF assms(1) grows_fold, of xs] obtain par where a: "a \<noteq> []"
      and st: "subtree ?d (butlast a) = Some par"
      by (auto simp: parentElement_def split: if_splits option.splits)
    from subtree_append[OF st, of r] st' r have "subtree par r = Some par'" by simp
    from marker_up[OF this m] a st show ?thesis by (simp add: bound_iff)
  qed
  with True show ?thesis by simp
qed

lemma controls_of_fold_exact:
  assumes "a \<in> set as" and "\<forall>a'\<in>set as. parentElement a' doc \<noteq> None"
  shows "controls_of a (fold addTranscribeButton as doc) =
     controls_of a doc +
     (if bound a doc \<or> (\<exists>a'\<in>set (takeWhile (\<lambda>q. q \<noteq> a) as). prefix (butlast a) (butlast a'))
      then 0 else 1)"
proof -
  let ?xs = "takeWhile (\<lambda>q. q \<noteq> a) as"
  have "dropWhile (\<lambda>q. q \<noteq> a) as \<noteq> []" using assms(1) by (auto simp: dropWhile_eq_Nil_conv)
  then obtain z ys where d: "dropWhile (\<lambda>q. q \<noteq> a) as = z # ys"
    by (cases "dropWhile (\<lambda>q. q \<noteq> a) as") auto
  from hd_dropWhile[of "\<lambda>q. q \<noteq> a" as] d have "z = a" by simp
  with d takeWhile_dropWhile_id[of "\<lambda>q. q \<noteq> a" as] have as: "as = ?xs @ a # ys" by simp
  have nx: "a \<notin> set ?xs" by (auto dest: set_takeWhileD)
  let ?d = "fold addTranscribeButton ?xs doc"
  have px: "\<forall>a'\<in>set ?xs. parentElement a' doc \<noteq> None" using assms(2) by (auto dest: set_takeWhileD)
  have pa: "parentElement a doc \<noteq> None" using assms by blast
  have pd: "parentElement a ?d \<noteq> None" using pa grows_fold by (rule parent_grows)
  have b: "bound a ?d = (bound a doc \<or> (\<exists>a'\<in>set ?xs. prefix (butlast a) (butlast a')))"
    using pa px by (rule bound_fold_iff)
  have "fold addTranscribeButton as doc =
      fold addTranscribeButton ys (addTranscribeButton a ?d)"
    by (subst as) simp
  moreover have "bound a (addTranscribeButton a ?d)" using pd by (rule bound_addTranscribeButton)
  ultimately have "controls_of a (fold addTranscribeButton as doc) =
      controls_of a (addTranscribeButton a ?d)"
    by (simp add: controls_of_fold_bound)
  also have "\<dots> = controls_of a ?d + (if \<not> bound a ?d then 1 else 0)"
    using pd by (simp add: controls_of_add)
  also have "controls_of a ?d = controls_of a doc" using nx by (rule controls_of_fold_other)
  finally show ?thesis using b by simp
qed

lemma controls_of_scan_exact:
  assumes "subtree doc el = Some e" and "p \<in> set (audios e)"
  shows "controls_of (el @ p) (addTranscribeButtonToAudio el doc) =
     controls_of (el @ p) doc +
     (if bound (el @ p) doc \<or>
         (\<exists>q\<in>set (takeWhile (\<lambda>q. q \<noteq> p) (audios e)). prefix (butlast p) (butlast q))
      then 0 else 1)"
proof -
  let ?as = "map ((@) el) (audios e)"
  have in_as: "el @ p \<in> set ?as" using assms(2) by simp
  have par: "\<forall>a'\<in>set ?as. parentElement a' doc \<noteq> None"
    using audio_parent[OF assms(1)] by auto
  have tw: "takeWhile (\<lambda>q. q \<noteq> el @ p) ?as = map ((@) el) (takeWhile (\<lambda>q. q \<noteq> p) (audios e))"
    by (simp add: takeWhile_map comp_def)
  have p: "p \<noteq> []" using audios_valid(1)[OF assms(2)] by simp
  have "(\<exists>a'\<in>set (takeWhile (\<lambda>q. q \<noteq> el @ p) ?as). prefix (butlast (el @ p)) (butlast a')) =
      (\<exists>q\<in>set (takeWhile (\<lambda>q. q \<noteq> p) (audios e)). prefix (butlast p) (butlast q))"
  proof -
    have "\<And>q. q \<in> set (takeWhile (\<lambda>q. q \<noteq> p) (audios e)) \<Longrightarrow>
        prefix (butlast (el @ p)) (butlast (el @ q)) = prefix (butlast p) (butlast q)"
    proof -
      fix q assume "q \<in> set (takeWhile (\<lambda>q. q \<noteq> p) (audios e))"
      then have "q \<in> set (audios e)" by (auto dest: set_takeWhileD)
      then have "q \<noteq> []" using audios_valid(1) by blast
      with p show "prefix (butlast (el @ p)) (butlast (el @ q)) = prefix (butlast p) (butlast q)"
        by (simp add: butlast_append)
    qed
    then show ?thesis unfolding tw by auto
  qed
  with controls_of_fold_exact[OF in_as par] show ?thesis
    using assms(1) by (simp add: addTranscribeButtonToAudio_def)
qed

section \<open>The claims\<close>

text \<open>
  C1. With post-processing enabled, a failing call of the text-generation backend (the
  server cannot be reached, a status that is no success, a body that is no JSON) does
  not fail the job: the final text is the fixed string, the result inserter runs with
  it, and the job returns with the progress text of a completed job.
\<close>

theorem ollama_failure_is_not_fatal:
  assumes "settingOllamaToggle (settings w)"
    and "probe r = Response True b" and "audio r = Response ok (Some bytes)"
    and "fetchTranscription_result (whisper r) = Inr t"
    and "ollama r = Rejected \<or> (\<exists>body. ollama r = Response False body) \<or> ollama r = Response True None"
  shows "stage (jobs (transcribeAudio a r w) ! length (jobs w)) = Returned \<and>
    finalText (jobs (transcribeAudio a r w) ! length (jobs w)) = JStr ''Failed to process text with Ollama.'' \<and>
    textContent (indicators (transcribeAudio a r w) ! length (indicators w)) = ''Transcription Complete'' \<and>
    (\<exists>w'. displayTranscriptionResult a (JStr ''Failed to process text with Ollama.'') w = Inr w' \<and>
          editor (transcribeAudio a r w) = editor w' \<and> notices (transcribeAudio a r w) = notices w') \<and>
    (find_button a (page w) \<noteq> None \<and> markdownActive w \<longrightarrow>
       editor (transcribeAudio a r w) =
         setCursor (fst (cursor (editor w)) + 1, 35)
           (replaceRange ''Failed to process text with Ollama.'' (fst (cursor (editor w)) + 1, 0) (editor w)))"
proof -
  let ?jid = "length (jobs w)"
  let ?fb = "JStr ''Failed to process text with Ollama.''"
  let ?X = "at_ollama a r w"
  from processWithOllama_result_fail[OF assms(5), of ?X] obtain e where
    p: "processWithOllama_result (ollama r) ?X = (?fb, console_error ''Error processing with Ollama:'' e ?X)"
    by blast
  let ?Y = "(console_error ''Error processing with Ollama:'' e ?X)
       \<lparr>jobs := (jobs ?X)[?jid := (jobs ?X ! ?jid)\<lparr>finalText := ?fb\<rparr>]\<rparr>"
  have sj: "same_job a w ?X" using assms(2,3,4,1) by (rule same_job_at_ollama)
  have run: "transcribeAudio a r w = finished ?jid ?Y"
    using run_ollama[OF assms(2,3,4,1), of a]
      resume_ollama[OF waiting_at_ollama[OF assms(2,3,4,1), of a], of "ollama r"] p
    by simp
  have Y: "?jid < length (jobs ?Y)" "progressIndicator (jobs ?Y ! ?jid) = length (indicators w)"
    "length (indicators ?Y) = Suc (length (indicators w))"
    "audioElement (jobs ?Y ! ?jid) = a" "finalText (jobs ?Y ! ?jid) = ?fb"
    "editor ?Y = editor w" "notices ?Y = notices w"
    using sj by (simp_all add: same_job_def console_error_def)
  have ins: "insertion a ?fb ?Y = insertion a ?fb w"
    using sj by (intro insertion_frame) (simp_all add: same_job_def console_error_def)
  obtain ed ns where i: "insertion a ?fb w = Inr (ed, ns)" using insertion_string by blast
  have fin: "finished ?jid ?Y =
     ?Y\<lparr>jobs := (jobs ?Y)[?jid := (jobs ?Y ! ?jid)\<lparr>stage := Returned\<rparr>],
         indicators := (indicators ?Y)[length (indicators w) :=
              (indicators ?Y ! length (indicators w))\<lparr>textContent := ''Transcription Complete''\<rparr>],
         intervals := (intervals ?Y)[dotInterval (jobs ?Y ! ?jid) :=
              (intervals ?Y ! dotInterval (jobs ?Y ! ?jid))\<lparr>active := False\<rparr>],
         timeouts := timeouts ?Y @
              [\<lparr>fires = clock ?Y + 3000, removes = length (indicators w), pending = True\<rparr>],
         editor := ed, notices := notices w @ ns\<rparr>"
    unfolding finished_def Y(2,4,5,7) ins i by simp
  have d: "displayTranscriptionResult a ?fb w = Inr (w\<lparr>editor := ed, notices := notices w @ ns\<rparr>)"
    by (simp add: displayTranscriptionResult_insertion i)
  have c1: "stage (jobs (transcribeAudio a r w) ! ?jid) = Returned"
    and c2: "finalText (jobs (transcribeAudio a r w) ! ?jid) = ?fb"
    using Y(1,5) unfolding run fin by simp_all
  have c3: "textContent (indicators (transcribeAudio a r w) ! length (indicators w)) = ''Transcription Complete''"
    using Y(3) unfolding run fin by simp
  have c4: "\<exists>w'. displayTranscriptionResult a ?fb w = Inr w' \<and>
          editor (transcribeAudio a r w) = editor w' \<and> notices (transcribeAudio a r w) = notices w'"
    unfolding run fin d by simp
  have c5: "find_button a (page w) \<noteq> None \<and> markdownActive w \<longrightarrow>
       editor (transcribeAudio a r w) =
         setCursor (fst (cursor (editor w)) + 1, 35)
           (replaceRange ''Failed to process text with Ollama.'' (fst (cursor (editor w)) + 1, 0) (editor w))"
  proof
    assume "find_button a (page w) \<noteq> None \<and> markdownActive w"
    with i have "ed = setCursor (fst (cursor (editor w)) + 1, 35)
           (replaceRange ''Failed to process text with Ollama.'' (fst (cursor (editor w)) + 1, 0) (editor w))"
      by (simp add: insertion_def trim_fallback eval_nat_numeral)
    then show "editor (transcribeAudio a r w) =
         setCursor (fst (cursor (editor w)) + 1, 35)
           (replaceRange ''Failed to process text with Ollama.'' (fst (cursor (editor w)) + 1, 0) (editor w))"
      unfolding run fin by simp
  qed
  from c1 c2 c3 c4 c5 show ?thesis by blast
qed

theorem ollama_failure_is_not_fatal_witness:
  "settingOllamaToggle (settings (with_ollama demo_world)) \<and>
   probe demo_run = Response True None \<and> audio demo_run = Response True (Some ''bytes'') \<and>
   fetchTranscription_result (whisper demo_run) = Inr (JStr '' hello world '') \<and>
   ollama demo_run = Rejected \<and>
   stage (jobs (transcribeAudio [0, 0] demo_run (with_ollama demo_world)) ! 0) = Returned \<and>
   finalText (jobs (transcribeAudio [0, 0] demo_run (with_ollama demo_world)) ! 0) =
     JStr ''Failed to process text with Ollama.'' \<and>
   textContent (indicators (transcribeAudio [0, 0] demo_run (with_ollama demo_world)) ! 0) =
     ''Transcription Complete'' \<and>
   editor (transcribeAudio [0, 0] demo_run (with_ollama demo_world)) =
     \<lparr>doc_lines = [''first'', ''Failed to process text with Ollama.second'', ''third''],
      cursor = (1, 35)\<rparr>"
proof -
  have h: "settingOllamaToggle (settings (with_ollama demo_world))"
    "probe demo_run = Response True None" "audio demo_run = Response True (Some ''bytes'')"
    "fetchTranscription_result (whisper demo_run) = Inr (JStr '' hello world '')"
    "ollama demo_run = Rejected \<or> (\<exists>body. ollama demo_run = Response False body) \<or>
       ollama demo_run = Response True None"
    by (simp_all add: with_ollama_def demo_world_def demo_run_def fetchTranscription_result_def
        await_fetch_def)
  have e: "jobs (with_ollama demo_world) = []" "indicators (with_ollama demo_world) = []"
    "page (with_ollama demo_world) = demo_page" "markdownActive (with_ollama demo_world)"
    "editor (with_ollama demo_world) = \<lparr>doc_lines = [''first'', ''second'', ''third''], cursor = (0, 2)\<rparr>"
    by (simp_all add: with_ollama_def demo_world_def)
  have o: "ollama demo_run = Rejected" by (simp add: demo_run_def)
  note t = ollama_failure_is_not_fatal[OF h, of "[0, 0]"]
  from t have "stage (jobs (transcribeAudio [0, 0] demo_run (with_ollama demo_world)) ! 0) = Returned"
    "finalText (jobs (transcribeAudio [0, 0] demo_run (with_ollama demo_world)) ! 0) =
       JStr ''Failed to process text with Ollama.''"
    "textContent (indicators (transcribeAudio [0, 0] demo_run (with_ollama demo_world)) ! 0) =
       ''Transcription Complete''"
    "editor (transcribeAudio [0, 0] demo_run (with_ollama demo_world)) =
       \<lparr>doc_lines = [''first'', ''Failed to process text with Ollama.second'', ''third''],
        cursor = (1, 35)\<rparr>"
    by (simp_all add: e demo_button demo_insert)
  with h(1-4) o show ?thesis by blast
qed




text \<open>
  C3, as the code has it. After a scan of the element \<open>el\<close>, the parent of every audio
  element below \<open>el\<close> holds an element with the class of the control. The scan goes
  through the audio elements in document order and attaches exactly one new control,
  bound to that audio element, to each one whose parent holds no element with the class
  when the scan reaches it: the parent held none before the scan, and no audio element
  earlier in the scan has its parent at or below that parent. To every other audio element
  the scan attaches none (the second of two audio elements with the same parent gets
  none). A second scan changes nothing, and neither does a second run of the observer
  on the same batch of mutations.
\<close>

theorem scan_binds_once:
  assumes "subtree doc el = Some e" and "p \<in> set (audios e)"
  shows "(\<exists>pp par. parentElement (el @ p) (addTranscribeButtonToAudio el doc) = Some (pp, par) \<and>
            querySelector par \<noteq> None) \<and>
     controls_of (el @ p) (addTranscribeButtonToAudio el doc) =
       controls_of (el @ p) doc +
       (if (\<exists>pp par. parentElement (el @ p) doc = Some (pp, par) \<and> querySelector par \<noteq> None) \<or>
           (\<exists>q\<in>set (takeWhile (\<lambda>q. q \<noteq> p) (audios e)). prefix (butlast p) (butlast q))
        then 0 else 1) \<and>
     controls_of (el @ p) (addTranscribeButtonToAudio el doc) \<le> controls_of (el @ p) doc + 1 \<and>
     ((\<exists>pp par. parentElement (el @ p) doc = Some (pp, par) \<and> querySelector par \<noteq> None) \<longrightarrow>
        controls_of (el @ p) (addTranscribeButtonToAudio el doc) = controls_of (el @ p) doc) \<and>
     addTranscribeButtonToAudio el (addTranscribeButtonToAudio el doc) =
       addTranscribeButtonToAudio el doc \<and>
     ((\<forall>m\<in>set ms. subtree doc (target m) \<noteq> None) \<longrightarrow>
        on_mutations ms (on_mutations ms doc) = on_mutations ms doc)"
proof -
  have b: "bound (el @ p) doc =
      (\<exists>pp par. parentElement (el @ p) doc = Some (pp, par) \<and> querySelector par \<noteq> None)"
    by (simp add: bound_def has_marker_def)
  from scan_bound[OF assms] have 1:
    "\<exists>pp par. parentElement (el @ p) (addTranscribeButtonToAudio el doc) = Some (pp, par) \<and>
            querySelector par \<noteq> None"
    by (simp add: bound_def has_marker_def)
  have 2: "controls_of (el @ p) (addTranscribeButtonToAudio el doc) =
       controls_of (el @ p) doc +
       (if (\<exists>pp par. parentElement (el @ p) doc = Some (pp, par) \<and> querySelector par \<noteq> None) \<or>
           (\<exists>q\<in>set (takeWhile (\<lambda>q. q \<noteq> p) (audios e)). prefix (butlast p) (butlast q))
        then 0 else 1)"
    using controls_of_scan_exact[OF assms] unfolding b .
  have 3: "(\<exists>pp par. parentElement (el @ p) doc = Some (pp, par) \<and> querySelector par \<noteq> None) \<longrightarrow>
        controls_of (el @ p) (addTranscribeButtonToAudio el doc) = controls_of (el @ p) doc"
    using controls_of_scan_bound[of "el @ p" doc el] unfolding b by blast
  have 4: "(\<forall>m\<in>set ms. subtree doc (target m) \<noteq> None) \<longrightarrow>
        on_mutations ms (on_mutations ms doc) = on_mutations ms doc"
    using on_mutations_idem[of ms doc] by blast
  from 1 2 3 4 show ?thesis
    using controls_of_scan_le[of "el @ p" el doc] scan_idem[of el doc] by blast
qed

theorem scan_binds_once_witness:
  "subtree demo_page0 [] = Some demo_page0 \<and> [0, 0] \<in> set (audios demo_page0) \<and>
   controls_of [0, 0] demo_page0 = 0 \<and>
   controls_of [0, 0] (addTranscribeButtonToAudio [] demo_page0) = 1 \<and>
   addTranscribeButtonToAudio [] (addTranscribeButtonToAudio [] demo_page0) =
     addTranscribeButtonToAudio [] demo_page0 \<and>
   subtree two_audios [] = Some two_audios \<and> audios two_audios = [[0], [1]] \<and>
   controls_of [0] two_audios = 0 \<and> controls_of [1] two_audios = 0 \<and>
   controls_of [0] (addTranscribeButtonToAudio [] two_audios) = 1 \<and>
   controls_of [1] (addTranscribeButtonToAudio [] two_audios) = 0 \<and>
   subtree nested_audios [] = Some nested_audios \<and> audios nested_audios = [[0, 0], [1]] \<and>
   controls_of [0, 0] nested_audios = 0 \<and> controls_of [1] nested_audios = 0 \<and>
   controls_of [0, 0] (addTranscribeButtonToAudio [] nested_audios) = 1 \<and>
   controls_of [1] (addTranscribeButtonToAudio [] nested_audios) = 0"
proof -
  have n: "subtree nested_audios [] = Some nested_audios" "audios nested_audios = [[0, 0], [1]]"
    "[0, 0] \<in> set (audios nested_audios)" "[1] \<in> set (audios nested_audios)"
    "controls_of [0, 0] nested_audios = 0" "controls_of [1] nested_audios = 0"
    "querySelector nested_audios = None"
    "parentElement [1] nested_audios = Some ([], nested_audios)"
    "parentElement [0, 0] nested_audios =
       Some ([0], Node ''span'' [] [] None [Node ''audio'' [] ''app://local/a.mp3'' None []])"
    by (simp_all add: nested_audios_def controls_of_def parentElement_def)
  note t3 = scan_binds_once[OF n(1,3), of "[]"]
  note t4 = scan_binds_once[OF n(1,4), of "[]"]
  have 3: "controls_of [0, 0] (addTranscribeButtonToAudio [] nested_audios) = 1"
    using t3[THEN conjunct2, THEN conjunct1] n by simp
  have 4: "controls_of [1] (addTranscribeButtonToAudio [] nested_audios) = 0"
    using t4[THEN conjunct2, THEN conjunct1] n by simp
  have h: "subtree demo_page0 [] = Some demo_page0" "[0, 0] \<in> set (audios demo_page0)"
    by (simp_all add: demo_page0_def)
  have k: "subtree two_audios [] = Some two_audios" "audios two_audios = [[0], [1]]"
    "[0] \<in> set (audios two_audios)" "[1] \<in> set (audios two_audios)"
    by (simp_all add: two_audios_def)
  have c: "controls_of [0, 0] demo_page0 = 0" "controls_of [0] two_audios = 0"
    "controls_of [1] two_audios = 0"
    by (simp_all add: controls_of_def demo_page0_def two_audios_def)
  have q: "querySelector two_audios = None" "parentElement [0] two_audios = Some ([], two_audios)"
    "parentElement [1] two_audios = Some ([], two_audios)"
    "parentElement [0, 0] demo_page0 =
       Some ([0], Node ''span'' [''internal-embed''] [] None
          [Node ''audio'' [] ''app://local/notes/memo.mp3'' None []])"
    by (simp_all add: two_audios_def demo_page0_def parentElement_def)
  note t0 = scan_binds_once[OF h, of "[]"]
  note t1 = scan_binds_once[OF k(1,3), of "[]"]
  note t2 = scan_binds_once[OF k(1,4), of "[]"]
  have 0: "controls_of [0, 0] (addTranscribeButtonToAudio [] demo_page0) = 1"
    using t0[THEN conjunct2, THEN conjunct1] c q by simp (simp add: demo_page0_def)
  have 1: "controls_of [0] (addTranscribeButtonToAudio [] two_audios) = 1"
    using t1[THEN conjunct2, THEN conjunct1] c q k by simp
  have 2: "controls_of [1] (addTranscribeButtonToAudio [] two_audios) = 0"
    using t2[THEN conjunct2, THEN conjunct1] c q k by simp
  from t0 h k c 0 1 2 3 4 n(1,2,5,6) show ?thesis by simp
qed

text \<open>
  C3, as stated, fails: of two audio elements with the same parent, the first gets the
  control and the second gets none.
\<close>

theorem one_control_per_audio_counterexample:
  "audios two_audios = [[0], [1]] \<and>
   controls_of [0] (addTranscribeButtonToAudio [] two_audios) = 1 \<and>
   controls_of [1] (addTranscribeButtonToAudio [] two_audios) = 0"
  by (simp add: two_audios_def addTranscribeButtonToAudio_def addTranscribeButton_def
      parentElement_def appendChild_def transcribe_button_def set_kids_def controls_of_def)

text \<open>
  C4. When the probe of the transcription backend fails (the server cannot be reached, or
  it answers with a status that is no success), the job returns at once: the user is
  notified, the progress indicator shows the failure, the interval of the job is cleared,
  the only request the job has sent is the probe, and no later event resumes the job. The
  indicator is removed 3000 milliseconds later; in a well-formed world it shows the
  failure until then.
\<close>

theorem unavailable_backend:
  assumes "probe r = Rejected \<or> (\<exists>body. probe r = Response False body)"
  shows "stage (jobs (transcribeAudio a r w) ! length (jobs w)) = Returned \<and>
    textContent (indicators (transcribeAudio a r w) ! length (indicators w)) =
      ''Failed: Server Unavailable'' \<and>
    notifications (transcribeAudio a r w) = notifications w @
      [(''Whisper Server Unavailable'',
        ''The local Whisper server is not available. Please ensure it is running on port 9000.'')] \<and>
    requests (transcribeAudio a r w) =
      requests w @ [Get (''http://'' @ settingWhisperIP (settings w))] \<and>
    \<not> active (intervals (transcribeAudio a r w) ! length (intervals w)) \<and>
    (\<forall>ev. resume (length (jobs w)) ev (transcribeAudio a r w) = transcribeAudio a r w) \<and>
    (\<forall>d \<ge> 3000.
       \<not> attached (indicators (advance d (transcribeAudio a r w)) ! length (indicators w))) \<and>
    (well_formed w \<longrightarrow>
       (\<forall>d. textContent (indicators (advance d (transcribeAudio a r w)) ! length (indicators w)) =
              ''Failed: Server Unavailable'' \<and>
            attached (indicators (advance d (transcribeAudio a r w)) ! length (indicators w)) =
              (parentElement a (page w) \<noteq> None \<and> d < 3000)))"
proof -
  let ?jid = "length (jobs w)" and ?x = "length (indicators w)" and ?i = "length (intervals w)"
  let ?X = "at_probe a r w"
  let ?t = "\<lparr>fires = clock ?X + 3000, removes = ?x, pending = True\<rparr>"
  let ?w' = "transcribeAudio a r w"
  note X = at_probe_facts[of a r w]
  have run: "?w' =
    ?X\<lparr>jobs := (jobs ?X)[?jid := (jobs ?X ! ?jid)\<lparr>stage := Returned\<rparr>],
      indicators := (indicators ?X)[?x := (indicators ?X ! ?x)\<lparr>textContent := ''Failed: Server Unavailable''\<rparr>],
      intervals := (intervals ?X)[?i := (intervals ?X ! ?i)\<lparr>active := False\<rparr>],
      timeouts := timeouts ?X @ [?t, ?t],
      notifications := notifications ?X @ [(''Whisper Server Unavailable'',
         ''The local Whisper server is not available. Please ensure it is running on port 9000.'')],
      console := console ?X @
        (if probe r = Rejected then [(''Whisper server is not available:'', FetchFailed)] else [])\<rparr>"
    by (rule probe_fail_world[OF assms])
  have jl: "?jid < length (jobs ?X)" by (simp add: X(1) start_eq)
  have c1: "stage (jobs ?w' ! ?jid) = Returned" unfolding run using jl by simp
  have c2: "textContent (indicators ?w' ! ?x) = ''Failed: Server Unavailable''"
    unfolding run using X(4) by simp
  have c3: "notifications ?w' = notifications w @
      [(''Whisper Server Unavailable'',
        ''The local Whisper server is not available. Please ensure it is running on port 9000.'')]"
    unfolding run by (simp add: X(8))
  have c4: "requests ?w' = requests w @ [Get (''http://'' @ settingWhisperIP (settings w))]"
    unfolding run by (simp add: X(9))
  have c5: "\<not> active (intervals ?w' ! ?i)" unfolding run using X(5) by simp
  have jl': "?jid < length (jobs ?w')" unfolding run using jl by simp
  have c6: "\<forall>ev. resume ?jid ev ?w' = ?w'" using resume_returned[OF jl' c1] by blast
  have xl: "?x < length (indicators ?w')" unfolding run using X(4) by simp
  have cl: "clock ?w' = clock ?X" unfolding run by simp
  have due: "removal_due ?w' ?x (clock ?w') (clock ?w' + d)" if "3000 \<le> d" for d
  proof -
    have "length (timeouts ?X) < length (timeouts ?w')" unfolding run by simp
    moreover have "timeouts ?w' ! length (timeouts ?X) = ?t" unfolding run by simp
    ultimately show ?thesis unfolding removal_due_def cl using that
      by (intro exI[of _ "length (timeouts ?X)"]) simp
  qed
  have c7: "\<forall>d \<ge> 3000. \<not> attached (indicators (advance d ?w') ! ?x)"
    using advance_attached[OF xl] due by blast
  have c8: "well_formed w \<longrightarrow>
       (\<forall>d. textContent (indicators (advance d ?w') ! ?x) = ''Failed: Server Unavailable'' \<and>
            attached (indicators (advance d ?w') ! ?x) =
              (parentElement a (page w) \<noteq> None \<and> d < 3000))"
  proof (intro impI allI)
    fix d assume wf: "well_formed w"
    note S = at_probe_sole[OF wf, of a r]
    have nw: "\<forall>k < length (intervals ?w'). \<not> writes_to ?w' k ?x"
    proof (intro allI impI)
      fix k assume k: "k < length (intervals ?w')"
      then have kX: "k < length (intervals ?X)" unfolding run by simp
      show "\<not> writes_to ?w' k ?x"
      proof (cases "k = ?i")
        case True
        with c5 show ?thesis by (simp add: writes_to_def)
      next
        case False
        with S(1) kX have n: "\<not> writes_to ?X k ?x" by (simp add: sole_writer_def)
        have "progressIndicator ((jobs ?X)[?jid := (jobs ?X ! ?jid)\<lparr>stage := Returned\<rparr>] ! m) =
            progressIndicator (jobs ?X ! m)" for m
          using progressIndicator_update[of "\<lambda>j. j\<lparr>stage := Returned\<rparr>" "jobs ?X" ?jid m] by simp
        then have "writes_to ?w' k ?x = writes_to ?X k ?x"
          unfolding run writes_to_def using False kX
          by (simp add: nth_list_update)
        with n show ?thesis by simp
      qed
    qed
    from advance_no_writer[OF nw, of d] c2
    have t: "textContent (indicators (advance d ?w') ! ?x) = ''Failed: Server Unavailable''" by simp
    have a0: "attached (indicators ?w' ! ?x) = (parentElement a (page w) \<noteq> None)"
      unfolding run using S(2) X(4) by simp
    have rd: "removal_due ?w' ?x (clock ?w') (clock ?w' + d) = (3000 \<le> d)"
    proof
      assume "removal_due ?w' ?x (clock ?w') (clock ?w' + d)"
      then obtain k where k: "k < length (timeouts ?w')" "pending (timeouts ?w' ! k)"
        "removes (timeouts ?w' ! k) = ?x" "fires (timeouts ?w' ! k) \<le> clock ?w' + d"
        unfolding removal_due_def by blast
      have "\<not> k < length (timeouts ?X)"
      proof
        assume kk: "k < length (timeouts ?X)"
        then have "timeouts ?w' ! k = timeouts ?X ! k" unfolding run by (simp add: nth_append)
        with k(3) kk S(3) show False by simp
      qed
      with k(1) have "timeouts ?w' ! k = ?t" unfolding run
        by (auto simp: nth_append nth_Cons' less_Suc_eq)
      with k(4) cl show "3000 \<le> d" by simp
    next
      assume "3000 \<le> d"
      then show "removal_due ?w' ?x (clock ?w') (clock ?w' + d)" by (rule due)
    qed
    from advance_attached[OF xl, of d] a0 rd
    have "attached (indicators (advance d ?w') ! ?x) = (parentElement a (page w) \<noteq> None \<and> d < 3000)"
      by auto
    with t show "textContent (indicators (advance d ?w') ! ?x) = ''Failed: Server Unavailable'' \<and>
            attached (indicators (advance d ?w') ! ?x) =
              (parentElement a (page w) \<noteq> None \<and> d < 3000)" by blast
  qed
  from c1 c2 c3 c4 c5 c6 c7 c8 show ?thesis by blast
qed

theorem unavailable_backend_witness:
  "probe demo_run_down = Rejected \<and>
   stage (jobs (transcribeAudio [0, 0] demo_run_down demo_world) ! 0) = Returned \<and>
   textContent (indicators (transcribeAudio [0, 0] demo_run_down demo_world) ! 0) =
     ''Failed: Server Unavailable'' \<and>
   requests (transcribeAudio [0, 0] demo_run_down demo_world) = [Get ''http://192.168.1.10:9000''] \<and>
   attached (indicators (advance 2999 (transcribeAudio [0, 0] demo_run_down demo_world)) ! 0) \<and>
   textContent (indicators (advance 2999 (transcribeAudio [0, 0] demo_run_down demo_world)) ! 0) =
     ''Failed: Server Unavailable'' \<and>
   \<not> attached (indicators (advance 3000 (transcribeAudio [0, 0] demo_run_down demo_world)) ! 0)"
proof -
  let ?w' = "transcribeAudio [0, 0] demo_run_down demo_world"
  have p: "probe demo_run_down = Rejected" by (simp add: demo_run_down_def)
  then have h: "probe demo_run_down = Rejected \<or> (\<exists>body. probe demo_run_down = Response False body)"
    by simp
  note t = unavailable_backend[OF h, of "[0, 0]" demo_world, unfolded demo_world_simps list.size]
  from t have a1: "stage (jobs ?w' ! 0) = Returned" by (rule conjunct1)
  from t have "textContent (indicators ?w' ! 0) = ''Failed: Server Unavailable''"
    by (elim conjE)
  moreover from t have "requests ?w' = [] @ [Get (''http://'' @ settingWhisperIP DEFAULT_SETTINGS)]"
    by (elim conjE)
  moreover from t have "well_formed demo_world \<longrightarrow>
       (\<forall>d. textContent (indicators (advance d ?w') ! 0) = ''Failed: Server Unavailable'' \<and>
            attached (indicators (advance d ?w') ! 0) =
              (parentElement [0, 0] demo_page \<noteq> None \<and> d < 3000))"
    by (elim conjE)
  then have u: "textContent (indicators (advance d ?w') ! 0) = ''Failed: Server Unavailable'' \<and>
            attached (indicators (advance d ?w') ! 0) = (d < 3000)" for d
    using well_formed_demo demo_parent by simp
  ultimately show ?thesis using p a1 u[of 2999] u[of 3000] by simp
qed

text \<open>
  C5 fails on the code. With post-processing enabled the job starts a second interval
  (line 159); \<open>clearInterval(dotInterval)\<close> in lines 172 and 182 names the first one,
  so the second is still active when the job has returned, and its next tick, 500
  milliseconds at most after the completion, overwrites the text \<open>Transcription Complete\<close>
  of the progress indicator.
\<close>

theorem processing_interval_is_never_cleared:
  "settingOllamaToggle (settings (with_ollama demo_world)) \<and>
   stage (jobs (transcribeAudio [0, 0] demo_run_ok (with_ollama demo_world)) ! 0) = Returned \<and>
   length (intervals (transcribeAudio [0, 0] demo_run_ok (with_ollama demo_world))) = 2 \<and>
   \<not> active (intervals (transcribeAudio [0, 0] demo_run_ok (with_ollama demo_world)) ! 0) \<and>
   active (intervals (transcribeAudio [0, 0] demo_run_ok (with_ollama demo_world)) ! 1) \<and>
   owner (intervals (transcribeAudio [0, 0] demo_run_ok (with_ollama demo_world)) ! 1) = 0 \<and>
   ticker (intervals (transcribeAudio [0, 0] demo_run_ok (with_ollama demo_world)) ! 1) = Processing \<and>
   textContent (indicators (transcribeAudio [0, 0] demo_run_ok (with_ollama demo_world)) ! 0) =
     ''Transcription Complete'' \<and>
   textContent (indicators (advance 500
       (transcribeAudio [0, 0] demo_run_ok (with_ollama demo_world))) ! 0) \<noteq>
     ''Transcription Complete''"
proof -
  let ?w = "with_ollama demo_world"
  have h: "probe demo_run_ok = Response True None" "audio demo_run_ok = Response True (Some ''bytes'')"
    "fetchTranscription_result (whisper demo_run_ok) = Inr (JStr '' hello world '')"
    "settingOllamaToggle (settings ?w)"
    by (simp_all add: demo_run_ok_def demo_run_def with_ollama_def demo_world_def
        fetchTranscription_result_def await_fetch_def)
  have o: "processWithOllama_try (ollama demo_run_ok) = Inr (JStr ''Hello, world.'')"
    by (simp add: demo_run_ok_def processWithOllama_try_def await_fetch_def)
  have e: "jobs ?w = []" "intervals ?w = []" "indicators ?w = []"
    by (simp_all add: with_ollama_def demo_world_def)
  have wf: "well_formed ?w" by (simp add: well_formed_def with_ollama_def demo_world_def)
  from processing_interval_leaks[OF h, of "[0, 0]"]
  have a: "stage (jobs (transcribeAudio [0, 0] demo_run_ok ?w) ! 0) = Returned \<and>
   length (intervals (transcribeAudio [0, 0] demo_run_ok ?w)) = 2 \<and>
   \<not> active (intervals (transcribeAudio [0, 0] demo_run_ok ?w) ! 0) \<and>
   active (intervals (transcribeAudio [0, 0] demo_run_ok ?w) ! 1) \<and>
   owner (intervals (transcribeAudio [0, 0] demo_run_ok ?w) ! 1) = 0 \<and>
   ticker (intervals (transcribeAudio [0, 0] demo_run_ok ?w) ! 1) = Processing"
    by (simp add: e)
  from run_ollama_text(1)[OF h o, of "[0, 0]"]
  have b: "textContent (indicators (transcribeAudio [0, 0] demo_run_ok ?w) ! 0) =
     ''Transcription Complete''" by (simp add: e)
  from completion_text_is_overwritten[OF wf h, of 500 "[0, 0]"]
  have c: "textContent (indicators (advance 500 (transcribeAudio [0, 0] demo_run_ok ?w)) ! 0) \<noteq>
     ''Transcription Complete''"
    using label_processing_not_complete by (auto simp: e)
  from h(4) a b c show ?thesis by blast
qed

text \<open>
  C6. When a job completes and the control is not found or no view of a note is active,
  the editor is left as it is, one notice is issued, and the job returns with the
  progress text of a completed job.
\<close>

theorem skipped_insertion:
  assumes "completes w jid ev t"
    and "find_button (audioElement (jobs w ! jid)) (page w) = None \<or> \<not> markdownActive w"
  shows "editor (resume jid ev w) = editor w \<and>
         notices (resume jid ev w) = notices w @
           [if find_button (audioElement (jobs w ! jid)) (page w) = None
            then ''Transcribe button not found!'' else ''No active editor found!''] \<and>
         stage (jobs (resume jid ev w) ! jid) = Returned \<and>
         textContent (indicators (resume jid ev w) ! progressIndicator (jobs w ! jid)) =
           ''Transcription Complete''"
proof -
  from resume_completes[OF assms(1)] obtain w1 where r: "resume jid ev w = finished jid w1"
    and w1: "jid < length (jobs w1)" "finalText (jobs w1 ! jid) = t"
      "audioElement (jobs w1 ! jid) = audioElement (jobs w ! jid)"
      "progressIndicator (jobs w1 ! jid) = progressIndicator (jobs w ! jid)"
      "progressIndicator (jobs w ! jid) < length (indicators w1)"
      "page w1 = page w" "markdownActive w1 = markdownActive w" "editor w1 = editor w"
      "notices w1 = notices w"
    by blast
  have "insertion (audioElement (jobs w ! jid)) t w1 =
      Inr (editor w, [if find_button (audioElement (jobs w ! jid)) (page w) = None
            then ''Transcribe button not found!'' else ''No active editor found!''])"
    using assms(2) w1 by (auto simp: insertion_def)
  then show ?thesis using w1 by (simp add: r finished_def)
qed

theorem skipped_insertion_witness:
  "completes demo_closed 0 (WhisperSettled (whisper demo_run)) (JStr '' hello world '') \<and>
   \<not> markdownActive demo_closed \<and>
   editor (resume 0 (WhisperSettled (whisper demo_run)) demo_closed) = editor demo_closed \<and>
   notices demo_closed = [] \<and>
   notices (resume 0 (WhisperSettled (whisper demo_run)) demo_closed) = [''No active editor found!''] \<and>
   stage (jobs (resume 0 (WhisperSettled (whisper demo_run)) demo_closed) ! 0) = Returned \<and>
   textContent (indicators (resume 0 (WhisperSettled (whisper demo_run)) demo_closed) ! 0) =
     ''Transcription Complete''"
proof -
  have e: "\<not> markdownActive demo_closed" "notices demo_closed = []"
    "audioElement (jobs demo_closed ! 0) = [0, 0]" "page demo_closed = demo_page"
    "progressIndicator (jobs demo_closed ! 0) = 0"
    by (simp_all add: demo_closed_def demo_uploading_eq demo_world_def demo_job_def)
  have "find_button (audioElement (jobs demo_closed ! 0)) (page demo_closed) = None \<or>
      \<not> markdownActive demo_closed" using e(1) by simp
  from skipped_insertion[OF demo_closed_completes this] demo_closed_completes e show ?thesis
    by (simp add: demo_button)
qed

text \<open>
  C7, as the code has it. Every activation of a control starts a new job for its audio
  element, in the stage of the availability check, whether or not other jobs for that
  element are active: the number of active jobs of the element grows by one.
\<close>

theorem click_starts_a_job:
  assumes "subtree (page w) b = Some n" and "onclick n = Some a"
  shows "length (jobs (click b w)) = Suc (length (jobs w)) \<and>
         take (length (jobs w)) (jobs (click b w)) = jobs w \<and>
         audioElement (jobs (click b w) ! length (jobs w)) = a \<and>
         stage (jobs (click b w) ! length (jobs w)) = AwaitProbe \<and>
         length (active_jobs a (click b w)) = Suc (length (active_jobs a w))"
proof -
  from click_bound(1)[OF assms] obtain j where
    "jobs (click b w) = jobs w @ [j]" "audioElement j = a" "stage j = AwaitProbe" by blast
  then show ?thesis by (simp add: active_jobs_def)
qed

theorem click_starts_a_job_witness:
  "subtree (page demo_started) [0, 1] = Some (Node ''button'' [''transcribe-button''] [] (Some [0, 0]) []) \<and>
   length (active_jobs [0, 0] demo_started) = 1 \<and>
   length (active_jobs [0, 0] (click [0, 1] demo_started)) = 2"
proof -
  have s: "subtree (page demo_started) [0, 1] =
     Some (Node ''button'' [''transcribe-button''] [] (Some [0, 0]) [])"
    by (simp add: demo_started_eq demo_world_def demo_page_def)
  have a: "length (active_jobs [0, 0] demo_started) = 1"
    by (simp add: demo_started_eq active_jobs_def demo_job_def)
  from click_starts_a_job[OF s, of "[0, 0]"] a s show ?thesis by simp
qed

text \<open>
  C7, as stated, fails: a second activation while the first job is active is no no-op, and
  two jobs are then active for the same audio element.
\<close>

theorem second_activation_counterexample:
  "length (active_jobs [0, 0] (click [0, 1] demo_world)) = 1 \<and>
   length (active_jobs [0, 0] (click [0, 1] (click [0, 1] demo_world))) = 2 \<and>
   click [0, 1] (click [0, 1] demo_world) \<noteq> click [0, 1] demo_world"
proof -
  let ?b = "Node ''button'' [''transcribe-button''] [] (Some [0, 0]) []"
  have p: "subtree (page demo_world) [0, 1] = Some ?b"
    by (simp add: demo_world_def demo_page_def)
  from click_bound[OF p, of "[0, 0]"] obtain j where
    j: "jobs (click [0, 1] demo_world) = jobs demo_world @ [j]" "audioElement j = [0, 0]"
      "stage j = AwaitProbe" and pg: "page (click [0, 1] demo_world) = page demo_world"
    by auto
  from p pg have p': "subtree (page (click [0, 1] demo_world)) [0, 1] = Some ?b" by simp
  from click_bound(1)[OF p', of "[0, 0]"] obtain j' where
    j': "jobs (click [0, 1] (click [0, 1] demo_world)) = jobs (click [0, 1] demo_world) @ [j']"
      "audioElement j' = [0, 0]" "stage j' = AwaitProbe"
    by auto
  have 0: "jobs demo_world = []" by (simp add: demo_world_def)
  have 1: "length (active_jobs [0, 0] (click [0, 1] demo_world)) = 1"
    using j 0 by (simp add: active_jobs_def)
  have 2: "length (active_jobs [0, 0] (click [0, 1] (click [0, 1] demo_world))) = 2"
    using j j' 0 by (simp add: active_jobs_def)
  from 1 2 have "click [0, 1] (click [0, 1] demo_world) \<noteq> click [0, 1] demo_world" by auto
  with 1 2 show ?thesis by simp
qed



text \<open>
  C9. \<open>checkWhisperServerAvailability\<close> sends one request to the address of the
  transcription backend; it returns true exactly when the request is answered with a
  success status, false when the request fails, and it never throws.
\<close>

theorem checkWhisperServerAvailability_true_iff:
  "(fst (checkWhisperServerAvailability r w) = Inr True) = (\<exists>body. r = Response True body) \<and>
   (\<exists>available. fst (checkWhisperServerAvailability r w) = Inr available) \<and>
   fst (checkWhisperServerAvailability (Rejected :: 'a response) w) = Inr False \<and>
   requests (snd (checkWhisperServerAvailability r w)) =
     requests w @ [Get (''http://'' @ settingWhisperIP (settings w))]"
  by (cases r)
     (auto simp: checkWhisperServerAvailability_def checkWhisperServerAvailability_result_def
        checkWhisperServerAvailability_request_def await_fetch_def fetch_def console_error_def)

theorem checkWhisperServerAvailability_true_iff_witness:
  "fst (checkWhisperServerAvailability (Response True (None :: unit option)) demo_world) = Inr True \<and>
   fst (checkWhisperServerAvailability (Response False (None :: unit option)) demo_world) = Inr False \<and>
   fst (checkWhisperServerAvailability (Rejected :: unit response) demo_world) = Inr False"
  using checkWhisperServerAvailability_true_iff[of "Response True (None :: unit option)" demo_world]
    checkWhisperServerAvailability_true_iff[of "Response False (None :: unit option)" demo_world]
  by auto



end
